theory Spec2Isabelle
  imports Main "HOL-Library.Char_ord" "HOL-Library.List_Lexorder" "HOL-Library.Multiset"
begin

section \<open>esm2pdf: crawl, order, render and merge\<close>

text \<open>
  A shallow embedding of \<^verbatim>\<open>esm2pdf.py\<close>. Python strings are modelled as
  \<^typ>\<open>string\<close>, that is lists of characters with code points below 256; an exception
  that leaves a function is the value \<open>None\<close> (or \<open>Inl\<close> of an error) of its model.
  The collaborators of the program (network fetch, HTML parser, browser, PDF library)
  are parameters of the functions that call them.
\<close>

type_synonym url = string

subsection \<open>Strings\<close>

text \<open>
  The string operations of Python that the program uses, for characters with code points
  below 256. \<open>str_strip\<close> is \<^verbatim>\<open>str.strip()\<close> (the characters for which
  \<^verbatim>\<open>str.isspace\<close> holds), \<open>str_lower\<close> is \<^verbatim>\<open>str.lower()\<close>, \<open>str_in sub s\<close> is
  \<^verbatim>\<open>sub in s\<close>, \<open>split1 c s\<close> is \<^verbatim>\<open>s.split(c, 1)\<close> for a string that contains \<open>c\<close>,
  \<open>str_split c s\<close> is \<^verbatim>\<open>s.split(c)\<close> and \<open>str_join c\<close> is \<^verbatim>\<open>c.join\<close>.
\<close>

definition is_space :: "char \<Rightarrow> bool" where
  "is_space c \<longleftrightarrow> (of_char c :: nat) \<in> {9, 10, 11, 12, 13, 28, 29, 30, 31, 32, 133, 160}"

definition str_strip :: "string \<Rightarrow> string" where
  "str_strip s = rev (dropWhile is_space (rev (dropWhile is_space s)))"

definition lower_char :: "char \<Rightarrow> char" where
  "lower_char c =
     (let n = (of_char c :: nat)
      in if (65 \<le> n \<and> n \<le> 90) \<or> (192 \<le> n \<and> n \<le> 222 \<and> n \<noteq> 215)
         then char_of (n + 32) else c)"

definition str_lower :: "string \<Rightarrow> string" where
  "str_lower s = map lower_char s"

definition startswith :: "string \<Rightarrow> string \<Rightarrow> bool" where
  "startswith s p \<longleftrightarrow> take (length p) s = p"

definition endswith :: "string \<Rightarrow> string \<Rightarrow> bool" where
  "endswith s p \<longleftrightarrow> length p \<le> length s \<and> drop (length s - length p) s = p"

fun str_in :: "string \<Rightarrow> string \<Rightarrow> bool" where
  "str_in sub [] = (sub = [])"
| "str_in sub (c # cs) = (startswith (c # cs) sub \<or> str_in sub cs)"

definition split1 :: "char \<Rightarrow> string \<Rightarrow> string \<times> string" where
  "split1 c s = (takeWhile (\<lambda>x. x \<noteq> c) s, drop 1 (dropWhile (\<lambda>x. x \<noteq> c) s))"

fun str_split :: "char \<Rightarrow> string \<Rightarrow> string list" where
  "str_split c [] = [[]]"
| "str_split c (x # xs) =
     (if x = c then [] # str_split c xs
      else case str_split c xs of
             [] \<Rightarrow> [[x]]
           | seg # segs \<Rightarrow> (x # seg) # segs)"

fun str_join :: "string \<Rightarrow> string list \<Rightarrow> string" where
  "str_join sep [] = []"
| "str_join sep [x] = x"
| "str_join sep (x # y # ys) = x @ sep @ str_join sep (y # ys)"

subsection \<open>The URL library (\<^verbatim>\<open>urllib.parse\<close>)\<close>

text \<open>
  \<^verbatim>\<open>urljoin\<close>, \<^verbatim>\<open>urlparse\<close> and \<^verbatim>\<open>urlunparse\<close> belong to the Python standard library, not
  to the program. They are modelled here from \<^verbatim>\<open>urllib/parse.py\<close> of CPython 3.11
  (\<^verbatim>\<open>allow_fragments\<close> is always true in the program). \<^verbatim>\<open>urlsplit\<close> raises \<^verbatim>\<open>ValueError\<close>
  for a network location with unbalanced or invalid square brackets; the validity of a
  bracketed host (\<^verbatim>\<open>_check_bracketed_host\<close>, built on \<^verbatim>\<open>ipaddress\<close>) is the parameter
  \<open>valid_host\<close>. \<^verbatim>\<open>_checknetloc\<close> never raises for code points below 256 and is left out.
\<close>

definition uses_relative :: "string list" where
  "uses_relative = [[], ''ftp'', ''http'', ''gopher'', ''nntp'', ''imap'',
     ''wais'', ''file'', ''https'', ''shttp'', ''mms'',
     ''prospero'', ''rtsp'', ''rtsps'', ''rtspu'', ''sftp'',
     ''svn'', ''svn+ssh'', ''ws'', ''wss'']"

definition uses_netloc :: "string list" where
  "uses_netloc = [[], ''ftp'', ''http'', ''gopher'', ''nntp'', ''telnet'',
     ''imap'', ''wais'', ''file'', ''mms'', ''https'', ''shttp'',
     ''snews'', ''prospero'', ''rtsp'', ''rtsps'', ''rtspu'', ''rsync'',
     ''svn'', ''svn+ssh'', ''sftp'', ''nfs'', ''git'', ''git+ssh'',
     ''ws'', ''wss'']"

definition uses_params :: "string list" where
  "uses_params = [[], ''ftp'', ''hdl'', ''prospero'', ''http'', ''imap'',
     ''https'', ''shttp'', ''rtsp'', ''rtsps'', ''rtspu'', ''sip'',
     ''sips'', ''mms'', ''sftp'', ''tel'']"

definition scheme_chars :: "string" where
  "scheme_chars = ''abcdefghijklmnopqrstuvwxyzABCDEFGHIJKLMNOPQRSTUVWXYZ0123456789+-.''"

definition ascii_alpha :: "char \<Rightarrow> bool" where
  "ascii_alpha c \<longleftrightarrow> c \<in> set ''abcdefghijklmnopqrstuvwxyzABCDEFGHIJKLMNOPQRSTUVWXYZ''"

definition c0_control_or_space :: "char \<Rightarrow> bool" where
  "c0_control_or_space c \<longleftrightarrow> (of_char c :: nat) \<le> 32"

definition unsafe_byte :: "char \<Rightarrow> bool" where
  "unsafe_byte c \<longleftrightarrow> c = CHR 0x09 \<or> c = CHR 0x0D \<or> c = CHR 0x0A"

definition netloc_delim :: "char \<Rightarrow> bool" where
  "netloc_delim c \<longleftrightarrow> c = CHR ''/'' \<or> c = CHR ''?'' \<or> c = CHR ''#''"

text \<open>\<^verbatim>\<open>_splitnetloc(url, 2)\<close>.\<close>

definition splitnetloc :: "string \<Rightarrow> string \<times> string" where
  "splitnetloc url =
     (takeWhile (\<lambda>c. \<not> netloc_delim c) (drop 2 url),
      dropWhile (\<lambda>c. \<not> netloc_delim c) (drop 2 url))"

text \<open>The bracket checks of \<^verbatim>\<open>urlsplit\<close>: false when \<^verbatim>\<open>ValueError\<close> is raised.\<close>

definition brackets_ok :: "(string \<Rightarrow> bool) \<Rightarrow> string \<Rightarrow> bool" where
  "brackets_ok valid_host nl =
     (if (CHR ''['' \<in> set nl \<and> CHR '']'' \<notin> set nl) \<or> (CHR '']'' \<in> set nl \<and> CHR ''['' \<notin> set nl)
      then False
      else if CHR ''['' \<in> set nl \<and> CHR '']'' \<in> set nl
      then valid_host (fst (split1 (CHR '']'') (snd (split1 (CHR ''['') nl))))
      else True)"

text \<open>
  The three stages of \<^verbatim>\<open>urlsplit\<close> after the cleaning of the input: the scheme (the
  text before the first colon when it starts with an ASCII letter and consists of scheme
  characters), the network location after \<^verbatim>\<open>//\<close> with its bracket checks, and the
  fragment and query.
\<close>

definition split_scheme :: "string \<Rightarrow> string \<Rightarrow> string \<times> string" where
  "split_scheme url1 scheme1 =
     (let pre = takeWhile (\<lambda>c. c \<noteq> CHR '':'') url1
      in if CHR '':'' \<in> set url1 \<and> pre \<noteq> [] \<and> ascii_alpha (hd url1) \<and>
            (\<forall>c\<in>set pre. c \<in> set scheme_chars)
         then (str_lower pre, snd (split1 (CHR '':'') url1))
         else (scheme1, url1))"

definition split_netloc :: "(string \<Rightarrow> bool) \<Rightarrow> string \<Rightarrow> (string \<times> string) option" where
  "split_netloc valid_host url2 =
     (if take 2 url2 = ''//''
      then (if brackets_ok valid_host (fst (splitnetloc url2))
            then Some (splitnetloc url2) else None)
      else Some ([], url2))"

definition split_query_fragment :: "string \<Rightarrow> string \<times> string \<times> string" where
  "split_query_fragment url3 =
     (let url4 = (if CHR ''#'' \<in> set url3 then fst (split1 (CHR ''#'') url3) else url3);
          frag = (if CHR ''#'' \<in> set url3 then snd (split1 (CHR ''#'') url3) else []);
          url5 = (if CHR ''?'' \<in> set url4 then fst (split1 (CHR ''?'') url4) else url4);
          qry = (if CHR ''?'' \<in> set url4 then snd (split1 (CHR ''?'') url4) else [])
      in (url5, qry, frag))"

definition urlsplit ::
  "(string \<Rightarrow> bool) \<Rightarrow> string \<Rightarrow> string \<Rightarrow> (string \<times> string \<times> string \<times> string \<times> string) option"
where
  "urlsplit valid_host url0 scheme0 =
     (let url1 = filter (\<lambda>c. \<not> unsafe_byte c) (dropWhile c0_control_or_space url0);
          scheme1 = filter (\<lambda>c. \<not> unsafe_byte c)
                      (rev (dropWhile c0_control_or_space (rev (dropWhile c0_control_or_space scheme0))));
          su = split_scheme url1 scheme1
      in case split_netloc valid_host (snd su) of
           None \<Rightarrow> None
         | Some (nl, url3) \<Rightarrow>
             (case split_query_fragment url3 of
                (url5, qry, frag) \<Rightarrow> Some (fst su, nl, url5, qry, frag)))"

text \<open>\<^verbatim>\<open>_splitparams\<close>: the parameters follow the first \<^verbatim>\<open>;\<close> of the last path segment.\<close>

definition splitparams :: "string \<Rightarrow> string \<times> string" where
  "splitparams url =
     (if CHR ''/'' \<in> set url
      then (let lastseg = rev (takeWhile (\<lambda>c. c \<noteq> CHR ''/'') (rev url));
                front = rev (dropWhile (\<lambda>c. c \<noteq> CHR ''/'') (rev url))
            in if CHR '';'' \<notin> set lastseg then (url, [])
               else (front @ fst (split1 (CHR '';'') lastseg), snd (split1 (CHR '';'') lastseg)))
      else if CHR '';'' \<in> set url then split1 (CHR '';'') url
      else (butlast url, url))"

record parse_result =
  scheme :: string
  netloc :: string
  path :: string
  params :: string
  query :: string
  fragment :: string

definition urlparse :: "(string \<Rightarrow> bool) \<Rightarrow> string \<Rightarrow> string \<Rightarrow> parse_result option" where
  "urlparse valid_host url scheme0 =
     (case urlsplit valid_host url scheme0 of
        None \<Rightarrow> None
      | Some (sch, nl, url', qry, frag) \<Rightarrow>
          (let pp = (if sch \<in> set uses_params \<and> CHR '';'' \<in> set url'
                     then splitparams url' else (url', []))
           in Some \<lparr>scheme = sch, netloc = nl, path = fst pp, params = snd pp,
                     query = qry, fragment = frag\<rparr>))"

definition urlunsplit :: "string \<Rightarrow> string \<Rightarrow> string \<Rightarrow> string \<Rightarrow> string \<Rightarrow> string" where
  "urlunsplit sch nl url qry frag =
     (let url1 = (if nl \<noteq> [] \<or> (sch \<noteq> [] \<and> sch \<in> set uses_netloc) \<or> take 2 url = ''//''
                  then ''//'' @ nl @ (if url \<noteq> [] \<and> take 1 url \<noteq> ''/'' then ''/'' @ url else url)
                  else url);
          url2 = (if sch \<noteq> [] then sch @ '':'' @ url1 else url1);
          url3 = (if qry \<noteq> [] then url2 @ ''?'' @ qry else url2)
      in if frag \<noteq> [] then url3 @ ''#'' @ frag else url3)"

definition urlunparse :: "parse_result \<Rightarrow> string" where
  "urlunparse u =
     urlunsplit (scheme u) (netloc u)
       (if params u \<noteq> [] then path u @ '';'' @ params u else path u)
       (query u) (fragment u)"

text \<open>The loop of \<^verbatim>\<open>urljoin\<close> that removes the dot segments.\<close>

fun resolve_segments :: "string list \<Rightarrow> string list \<Rightarrow> string list" where
  "resolve_segments resolved [] = resolved"
| "resolve_segments resolved (seg # segs) =
     (if seg = ''..'' then resolve_segments (butlast resolved) segs
      else if seg = ''.'' then resolve_segments resolved segs
      else resolve_segments (resolved @ [seg]) segs)"

definition urljoin :: "(string \<Rightarrow> bool) \<Rightarrow> string \<Rightarrow> string \<Rightarrow> string option" where
  "urljoin valid_host base url =
     (if base = [] then Some url
      else if url = [] then Some base
      else case urlparse valid_host base [] of
        None \<Rightarrow> None
      | Some b \<Rightarrow>
         (case urlparse valid_host url (scheme b) of
            None \<Rightarrow> None
          | Some r \<Rightarrow>
             if scheme r \<noteq> scheme b \<or> scheme r \<notin> set uses_relative then Some url
             else if scheme r \<in> set uses_netloc \<and> netloc r \<noteq> [] then Some (urlunparse r)
             else
               (let nl = (if scheme r \<in> set uses_netloc then netloc b else netloc r)
                in if path r = [] \<and> params r = []
                   then Some (urlunparse (r\<lparr>netloc := nl, path := path b, params := params b,
                                query := (if query r = [] then query b else query r)\<rparr>))
                   else
                     (let parts0 = str_split (CHR ''/'') (path b);
                          base_parts = (if last parts0 \<noteq> [] then butlast parts0 else parts0);
                          segments =
                            (if take 1 (path r) = ''/'' then str_split (CHR ''/'') (path r)
                             else (let sg = base_parts @ str_split (CHR ''/'') (path r)
                                   in if length sg < 2 then sg
                                      else hd sg # filter (\<lambda>x. x \<noteq> []) (butlast (tl sg)) @ [last sg]));
                          resolved0 = resolve_segments [] segments;
                          resolved = (if last segments = ''.'' \<or> last segments = ''..''
                                      then resolved0 @ [[]] else resolved0);
                          joined = str_join ''/'' resolved
                      in Some (urlunparse (r\<lparr>netloc := nl,
                                 path := (if joined = [] then ''/'' else joined)\<rparr>))))))"

subsection \<open>URL normalizer (\<^verbatim>\<open>normalize\<close>, \<^verbatim>\<open>is_internal\<close>, \<^verbatim>\<open>url_path\<close>)\<close>

definition BASE :: string where
  "BASE = ''https://engsoftmoderna.info''"

definition SKIP_EXTS :: "string list" where
  "SKIP_EXTS = [''.png'', ''.jpg'', ''.jpeg'', ''.svg'', ''.gif'',
                ''.pdf'', ''.zip'', ''.mp4'', ''.webm'', ''.ico'']"

text \<open>
  \<^verbatim>\<open>HTML_OK.match\<close> for the pattern \<^verbatim>\<open>^https://engsoftmoderna\.info(/.*)?$\<close> with
  \<^verbatim>\<open>re.IGNORECASE\<close>: the first 27 characters equal the origin up to case, and what follows
  is empty or a slash followed by characters other than a newline; \<^verbatim>\<open>$\<close> also matches
  before one final newline. The strings of this development have code points below 256,
  where only the two cases of an ASCII letter match each other; the match on arbitrary
  code points is \<open>HTML_OK_match\<close> below.
\<close>

definition at_end :: "string \<Rightarrow> bool" where
  "at_end r \<longleftrightarrow> r = [] \<or> r = [CHR 0x0A]"

definition is_internal :: "string \<Rightarrow> bool" where
  "is_internal url \<longleftrightarrow>
     str_lower (take 27 url) = ''https://engsoftmoderna.info'' \<and>
     (at_end (drop 27 url) \<or>
      (take 1 (drop 27 url) = ''/'' \<and>
       at_end (dropWhile (\<lambda>c. c \<noteq> CHR 0x0A) (drop 28 url))))"

text \<open>
  \<open>normalize_url\<close> is \<^verbatim>\<open>normalize\<close>; \<open>None\<close> is the \<^verbatim>\<open>ValueError\<close> of the URL library,
  which \<^verbatim>\<open>normalize\<close> does not catch.
\<close>

definition normalize_url :: "(string \<Rightarrow> bool) \<Rightarrow> string \<Rightarrow> string option" where
  "normalize_url valid_host href0 =
     (if href0 = [] then Some []
      else let href = str_strip href0
           in if startswith href ''#'' then Some []
              else case urljoin valid_host BASE href of
                None \<Rightarrow> None
              | Some absu0 \<Rightarrow>
                 (case urlparse valid_host absu0 [] of
                    None \<Rightarrow> None
                  | Some u \<Rightarrow>
                     (let absu = urlunparse (u\<lparr>fragment := [], query := []\<rparr>)
                      in if \<not> is_internal absu then Some []
                         else if \<exists>e\<in>set SKIP_EXTS. endswith (str_lower absu) e then Some []
                         else Some absu)))"

definition url_path :: "(string \<Rightarrow> bool) \<Rightarrow> string \<Rightarrow> string option" where
  "url_path valid_host url =
     (case urlparse valid_host url [] of
        None \<Rightarrow> None
      | Some u \<Rightarrow> Some (if path u = [] then ''/'' else path u))"

text \<open>
  The pattern \<^verbatim>\<open>HTML_OK\<close> on code points, as the regex engine matches it. With
  \<^verbatim>\<open>re.IGNORECASE\<close> a letter of the pattern matches itself, its other case, and the
  characters beyond ASCII that the engine treats as case variants of an ASCII letter:
  U+0130 and U+0131 for \<^verbatim>\<open>i\<close>, U+017F for \<^verbatim>\<open>s\<close>, U+212A for \<^verbatim>\<open>k\<close>. Any other character of the
  pattern matches itself only. The first 27 code points match the origin, position by
  position, and what follows is as for \<open>is_internal\<close>.
\<close>

definition ignorecase_variants :: "char \<Rightarrow> nat list" where
  "ignorecase_variants p =
     (let n = (of_char p :: nat);
          l = (if 65 \<le> n \<and> n \<le> 90 then n + 32 else n)
      in if 97 \<le> l \<and> l \<le> 122
         then [l, l - 32] @
              (if l = 105 then [0x130, 0x131] else if l = 115 then [0x17F]
               else if l = 107 then [0x212A] else [])
         else [n])"

definition line_end :: "nat list \<Rightarrow> bool" where
  "line_end r \<longleftrightarrow> r = [] \<or> r = [10]"

definition HTML_OK_match :: "nat list \<Rightarrow> bool" where
  "HTML_OK_match cs \<longleftrightarrow>
     list_all2 (\<lambda>p c. c \<in> set (ignorecase_variants p)) ''https://engsoftmoderna.info'' (take 27 cs) \<and>
     (line_end (drop 27 cs) \<or>
      (take 1 (drop 27 cs) = [47] \<and> line_end (dropWhile (\<lambda>c. c \<noteq> 10) (drop 28 cs))))"

subsection \<open>Sequencer (\<^verbatim>\<open>order_urls\<close>)\<close>

definition CHAPTERS_IN_ORDER :: "string list" where
  "CHAPTERS_IN_ORDER = [''/cap0.html'', ''/cap1.html'', ''/cap2.html'', ''/cap3.html'',
     ''/cap4.html'', ''/cap5.html'', ''/cap6.html'', ''/cap7.html'', ''/cap8.html'',
     ''/cap9.html'', ''/cap10.html'', ''/capAp.html'']"

definition EXTRA_ROOTS :: "string list" where
  "EXTRA_ROOTS = [''/'', ''/artigos/artigos.html'', ''/praticas.html'',
     ''/faq/testes-faq.html'', ''/faq/git-faq.html'']"

text \<open>
  The two loops that fill \<^verbatim>\<open>ordered\<close> from the lookup \<^verbatim>\<open>by_path\<close>, and the rest of
  \<^verbatim>\<open>order_urls\<close> once the lookup is built. \<^verbatim>\<open>sorted\<close> on strings is the lexicographic
  order on code points.
\<close>

definition emit_chapters :: "(string \<Rightarrow> url option) \<Rightarrow> url list" where
  "emit_chapters by_path =
     foldl (\<lambda>ordered p. case by_path p of None \<Rightarrow> ordered | Some u \<Rightarrow> ordered @ [u])
       [] CHAPTERS_IN_ORDER"

definition emit_extras :: "(string \<Rightarrow> url option) \<Rightarrow> url list \<Rightarrow> url list" where
  "emit_extras by_path ordered0 =
     foldl (\<lambda>ordered p. case by_path p of
                            None \<Rightarrow> ordered
                          | Some u \<Rightarrow> if u \<notin> set ordered then ordered @ [u] else ordered)
       ordered0 EXTRA_ROOTS"

definition order_with :: "(string \<Rightarrow> url option) \<Rightarrow> url list \<Rightarrow> url list" where
  "order_with by_path all_urls =
     (let ordered = emit_extras by_path (emit_chapters by_path);
          rest = filter (\<lambda>u. u \<notin> set ordered) all_urls;
          artigos = sort (filter (\<lambda>u. str_in ''/artigos/'' u) rest);
          faq = sort (filter (\<lambda>u. str_in ''/faq/'' u) rest);
          others = sort (filter (\<lambda>u. \<not> str_in ''/artigos/'' u \<and> \<not> str_in ''/faq/'' u) rest)
      in ordered @ artigos @ faq @ others)"

text \<open>
  The dictionary comprehension evaluates \<^verbatim>\<open>url_path\<close> on every URL in turn (the first
  \<^verbatim>\<open>ValueError\<close> leaves the function) and a later URL replaces an earlier one with the
  same path.
\<close>

definition order_urls :: "(string \<Rightarrow> bool) \<Rightarrow> url list \<Rightarrow> url list option" where
  "order_urls valid_host all_urls =
     (case those (map (url_path valid_host) all_urls) of
        None \<Rightarrow> None
      | Some paths \<Rightarrow> Some (order_with (map_of (rev (zip paths all_urls))) all_urls))"


subsection \<open>Page renderer (\<^verbatim>\<open>print_to_pdf\<close>)\<close>

definition OUT_DIR :: string where
  "OUT_DIR = ''esm_pdf_pages''"

text \<open>\<^verbatim>\<open>os.path.join\<close> for a relative file name, with the POSIX separator.\<close>

definition path_join :: "string \<Rightarrow> string \<Rightarrow> string" where
  "path_join d f = d @ ''/'' @ f"

fun digits :: "nat \<Rightarrow> string" where
  "digits n = (if n < 10 then [char_of (48 + n)] else digits (n div 10) @ [char_of (48 + n mod 10)])"

text \<open>The format \<^verbatim>\<open>{idx:04d}\<close>.\<close>

definition fmt04 :: "nat \<Rightarrow> string" where
  "fmt04 n = replicate (4 - length (digits n)) (CHR ''0'') @ digits n"

definition safe_name :: "string \<Rightarrow> string" where
  "safe_name p =
     (let s = rev (dropWhile (\<lambda>c. c = CHR ''/'') (rev (dropWhile (\<lambda>c. c = CHR ''/'') p)));
          r = concat (map (\<lambda>c. if c = CHR ''/'' then '' - '' else [c]) s)
      in if r = [] then ''home'' else r)"

definition page_file :: "nat \<Rightarrow> string \<Rightarrow> string" where
  "page_file idx p = fmt04 idx @ '' - '' @ safe_name p @ ''.pdf''"

text \<open>
  The state of a run: the files of the output directory (name and content), the console
  lines \<^verbatim>\<open>[OK] fname\<close> and \<^verbatim>\<open>[ERRO] url\<close>, the URLs handed to \<^verbatim>\<open>page.goto\<close>, and the number
  of calls of \<^verbatim>\<open>browser.close\<close>. The browser is a collaborator: \<open>goto u\<close> tells
  whether the navigation to \<open>u\<close> returns, \<open>pdf u\<close> is the document printed for \<open>u\<close>, or
  \<open>None\<close> when printing raises. Writing a file replaces a file of the same name.
\<close>

datatype log_line = OK string | ERRO url

record 'f session =
  dir :: "(string \<times> 'f) list"
  console :: "log_line list"
  attempted :: "url list"
  closed :: nat

datatype outcome = Done | LaunchError | UrlError

definition write_file :: "string \<Rightarrow> 'f \<Rightarrow> (string \<times> 'f) list \<Rightarrow> (string \<times> 'f) list" where
  "write_file name doc d =
     (if name \<in> fst ` set d then map (\<lambda>(n, c). if n = name then (n, doc) else (n, c)) d
      else d @ [(name, doc)])"

fun render_loop ::
  "(string \<Rightarrow> bool) \<Rightarrow> (url \<Rightarrow> bool) \<Rightarrow> (url \<Rightarrow> 'f option) \<Rightarrow> nat \<Rightarrow> url list \<Rightarrow>
   'f session \<Rightarrow> outcome \<times> 'f session"
where
  "render_loop valid_host goto pdf idx [] st = (Done, st\<lparr>closed := closed st + 1\<rparr>)"
| "render_loop valid_host goto pdf idx (u # us) st =
     (case url_path valid_host u of
        None \<Rightarrow> (UrlError, st)
      | Some p \<Rightarrow>
          (let fname = path_join OUT_DIR (page_file idx p);
               st1 = st\<lparr>attempted := attempted st @ [u]\<rparr>
           in if \<not> goto u then
                render_loop valid_host goto pdf (idx + 1) us (st1\<lparr>console := console st1 @ [ERRO u]\<rparr>)
              else case pdf u of
                None \<Rightarrow>
                  render_loop valid_host goto pdf (idx + 1) us (st1\<lparr>console := console st1 @ [ERRO u]\<rparr>)
              | Some doc \<Rightarrow>
                  render_loop valid_host goto pdf (idx + 1) us
                    (st1\<lparr>dir := write_file (page_file idx p) doc (dir st1),
                         console := console st1 @ [OK fname]\<rparr>)))"

text \<open>
  \<^verbatim>\<open>os.makedirs(OUT_DIR, exist_ok=True)\<close> keeps the files \<open>dir0\<close> that the directory
  already holds. \<open>launch_ok\<close> tells whether the browser and its page could be opened; if
  not, the exception leaves the function.
\<close>

definition print_to_pdf ::
  "(string \<Rightarrow> bool) \<Rightarrow> bool \<Rightarrow> (url \<Rightarrow> bool) \<Rightarrow> (url \<Rightarrow> 'f option) \<Rightarrow> (string \<times> 'f) list \<Rightarrow>
   url list \<Rightarrow> outcome \<times> 'f session"
where
  "print_to_pdf valid_host launch_ok goto pdf dir0 urls =
     (let st0 = \<lparr>dir = dir0, console = [], attempted = [], closed = 0\<rparr>
      in if \<not> launch_ok then (LaunchError, st0)
         else render_loop valid_host goto pdf 1 urls st0)"

text \<open>
  Navigation and printing both succeed for a URL; the console line of a URL at a position
  of the batch.
\<close>

definition rendered :: "(url \<Rightarrow> bool) \<Rightarrow> (url \<Rightarrow> 'f option) \<Rightarrow> url \<Rightarrow> bool" where
  "rendered goto pdf u \<longleftrightarrow> goto u \<and> pdf u \<noteq> None"

definition artifact :: "(string \<Rightarrow> bool) \<Rightarrow> nat \<Rightarrow> url \<Rightarrow> string" where
  "artifact valid_host idx u =
     (case url_path valid_host u of None \<Rightarrow> [] | Some p \<Rightarrow> page_file idx p)"

subsection \<open>Document merger (\<^verbatim>\<open>merge_pdfs\<close>)\<close>

text \<open>
  The PDF library is a collaborator. What it makes of a file is the file's content here:
  \<open>Unreadable\<close> when \<^verbatim>\<open>PdfReader(f)\<close> raises, otherwise the results of reading and adding
  its pages one after the other, each a page or an exception. The \<^verbatim>\<open>try\<close> block spans the
  construction of the reader and the loop over the pages, so the first exception ends
  the file and leaves the pages already added to the writer in place.
\<close>

datatype 'p page_read = Page 'p | PageError

datatype 'p pdf_file = Unreadable | Readable "'p page_read list"

fun add_pages :: "'p list \<times> nat \<Rightarrow> 'p page_read list \<Rightarrow> 'p list \<times> nat" where
  "add_pages (writer, added) [] = (writer, added)"
| "add_pages (writer, added) (Page pg # rs) = add_pages (writer @ [pg], added + 1) rs"
| "add_pages (writer, added) (PageError # rs) = (writer, added)"

definition merge_file :: "(string \<Rightarrow> 'p pdf_file option) \<Rightarrow> 'p list \<times> nat \<Rightarrow> string \<Rightarrow> 'p list \<times> nat" where
  "merge_file reader wa f =
     (case reader f of
        None \<Rightarrow> wa
      | Some Unreadable \<Rightarrow> wa
      | Some (Readable rs) \<Rightarrow> add_pages wa rs)"

text \<open>
  The result is the page sequence of the final document, the counter \<^verbatim>\<open>added\<close> and
  \<^verbatim>\<open>len(parts)\<close>.
\<close>

definition merge_pdfs :: "(string \<times> 'p pdf_file) list \<Rightarrow> 'p list \<times> nat \<times> nat" where
  "merge_pdfs d =
     (let parts = sort (map (path_join OUT_DIR)
                         (filter (\<lambda>f. endswith (str_lower f) ''.pdf'') (map fst d)));
          reader = map_of (map (\<lambda>(f, c). (path_join OUT_DIR f, c)) d);
          wa = foldl (merge_file reader) ([], 0) parts
      in (fst wa, snd wa, length parts))"

text \<open>What one file contributes to the final document, and whether it is read without an exception.\<close>

fun pages_before_error :: "'p page_read list \<Rightarrow> 'p list" where
  "pages_before_error [] = []"
| "pages_before_error (Page pg # rs) = pg # pages_before_error rs"
| "pages_before_error (PageError # rs) = []"

fun contribution :: "'p pdf_file \<Rightarrow> 'p list" where
  "contribution Unreadable = []"
| "contribution (Readable rs) = pages_before_error rs"

fun parseable :: "'p pdf_file \<Rightarrow> bool" where
  "parseable Unreadable = False"
| "parseable (Readable rs) = (PageError \<notin> set rs)"

fun all_pages :: "'p pdf_file \<Rightarrow> 'p list" where
  "all_pages Unreadable = []"
| "all_pages (Readable rs) = concat (map (\<lambda>r. case r of Page pg \<Rightarrow> [pg] | PageError \<Rightarrow> []) rs)"

definition is_pdf_name :: "string \<Rightarrow> bool" where
  "is_pdf_name f \<longleftrightarrow> endswith (str_lower f) ''.pdf''"

subsection \<open>Crawler (\<^verbatim>\<open>crawl_all\<close>)\<close>

text \<open>
  \<^verbatim>\<open>fetch_html\<close> is the network collaborator: \<open>None\<close> is any exception it raises, which
  the loop catches. \<^verbatim>\<open>extract_links\<close> is applied to the fetched text. The visited
  \<^verbatim>\<open>OrderedDict\<close> is the list of its keys in insertion order; the deque is a list whose
  head is popped and whose tail is appended to.

  \<open>crawl_step\<close> is one iteration of the \<^verbatim>\<open>while q\<close> loop for the popped \<open>u\<close> and the rest
  \<open>q\<close> of the queue.
\<close>

definition crawl_step ::
  "(url \<Rightarrow> 'h option) \<Rightarrow> ('h \<Rightarrow> url list) \<Rightarrow> url list \<Rightarrow> url \<Rightarrow> url list \<Rightarrow> url list \<times> url list"
where
  "crawl_step fetch_html extract_links seen u q =
     (if u \<in> set seen then (seen, q)
      else case fetch_html u of
             None \<Rightarrow> (seen, q)
           | Some html \<Rightarrow>
               (seen @ [u], q @ filter (\<lambda>nxt. nxt \<notin> set (seen @ [u])) (extract_links html)))"

partial_function (option) crawl_loop ::
  "(url \<Rightarrow> 'h option) \<Rightarrow> ('h \<Rightarrow> url list) \<Rightarrow> url list \<Rightarrow> url list \<Rightarrow> url list option"
where
  "crawl_loop fetch_html extract_links seen q =
     (case q of
        [] \<Rightarrow> Some seen
      | u # q' \<Rightarrow>
          (case crawl_step fetch_html extract_links seen u q' of
             (seen', q'') \<Rightarrow> crawl_loop fetch_html extract_links seen' q''))"

definition crawl_all ::
  "(url \<Rightarrow> 'h option) \<Rightarrow> ('h \<Rightarrow> url list) \<Rightarrow> url list \<Rightarrow> url list option"
where
  "crawl_all fetch_html extract_links start_urls =
     crawl_loop fetch_html extract_links [] start_urls"

text \<open>
  The pages reachable from the seeds through pages whose fetch succeeds, themselves
  fetched successfully.
\<close>

inductive_set reachable_ok ::
  "(url \<Rightarrow> 'h option) \<Rightarrow> ('h \<Rightarrow> url list) \<Rightarrow> url list \<Rightarrow> url set"
  for fetch_html :: "url \<Rightarrow> 'h option" and extract_links :: "'h \<Rightarrow> url list"
    and seeds :: "url list"
where
  seed: "s \<in> set seeds \<Longrightarrow> fetch_html s = Some h \<Longrightarrow> s \<in> reachable_ok fetch_html extract_links seeds"
| link: "v \<in> reachable_ok fetch_html extract_links seeds \<Longrightarrow> fetch_html v = Some h \<Longrightarrow>
         w \<in> set (extract_links h) \<Longrightarrow> fetch_html w = Some h' \<Longrightarrow>
         w \<in> reachable_ok fetch_html extract_links seeds"

text \<open>A link graph as a test double: each listed page fetches to its list of links.\<close>

type_synonym link_graph = "(url \<times> url list) list"

definition graph_fetch :: "link_graph \<Rightarrow> url \<Rightarrow> url list option" where
  "graph_fetch g = map_of g"

definition graph_links :: "url list \<Rightarrow> url list" where
  "graph_links ls = ls"


text \<open>The loop invariant of the crawl, used in the proofs below.\<close>

definition crawl_inv ::
  "(url \<Rightarrow> 'h option) \<Rightarrow> ('h \<Rightarrow> url list) \<Rightarrow> url list \<Rightarrow> url list \<Rightarrow> url list \<Rightarrow> bool"
where
  "crawl_inv f e seeds seen q \<longleftrightarrow>
     distinct seen \<and>
     set seen \<subseteq> reachable_ok f e seeds \<and>
     (\<forall>u\<in>set q. u \<in> set seeds \<or> (\<exists>v\<in>set seen. \<exists>h. f v = Some h \<and> u \<in> set (e h))) \<and>
     (\<forall>s\<in>set seeds. f s \<noteq> None \<longrightarrow> s \<in> set seen \<union> set q) \<and>
     (\<forall>v\<in>set seen. \<forall>h. f v = Some h \<longrightarrow>
        (\<forall>w\<in>set (e h). f w \<noteq> None \<longrightarrow> w \<in> set seen \<union> set q))"

section \<open>Properties\<close>

subsection \<open>Crawler: proofs\<close>

lemma crawl_loop_Nil: "crawl_loop f e seen [] = Some seen"
  by (subst crawl_loop.simps) simp

lemma crawl_loop_Cons:
  "crawl_loop f e seen (u # q) =
     crawl_loop f e (fst (crawl_step f e seen u q)) (snd (crawl_step f e seen u q))"
  by (subst crawl_loop.simps) (simp add: case_prod_beta)

lemma crawl_step_seen: "u \<in> set seen \<Longrightarrow> crawl_step f e seen u q = (seen, q)"
  by (simp add: crawl_step_def)

lemma crawl_step_fail: "f u = None \<Longrightarrow> crawl_step f e seen u q = (seen, q)"
  by (simp add: crawl_step_def)

lemma crawl_step_ok:
  "u \<notin> set seen \<Longrightarrow> f u = Some h \<Longrightarrow>
   crawl_step f e seen u q = (seen @ [u], q @ filter (\<lambda>nxt. nxt \<notin> set (seen @ [u])) (e h))"
  by (simp add: crawl_step_def)

lemma crawl_inv_init: "crawl_inv f e seeds [] seeds"
  by (simp add: crawl_inv_def)

lemma crawl_inv_skip:
  assumes inv: "crawl_inv f e seeds seen (u # q)" and skip: "u \<in> set seen \<or> f u = None"
  shows "crawl_inv f e seeds seen q"
  unfolding crawl_inv_def
proof (intro conjI ballI allI impI)
  show "distinct seen" and "set seen \<subseteq> reachable_ok f e seeds"
    using inv by (simp_all add: crawl_inv_def)
next
  fix x assume "x \<in> set q"
  then have "x \<in> set (u # q)" by simp
  with inv show "x \<in> set seeds \<or> (\<exists>v\<in>set seen. \<exists>h. f v = Some h \<and> x \<in> set (e h))"
    unfolding crawl_inv_def by blast
next
  fix s assume s: "s \<in> set seeds" "f s \<noteq> None"
  with inv have "s \<in> set seen \<union> set (u # q)"
    unfolding crawl_inv_def by blast
  with skip s(2) show "s \<in> set seen \<union> set q" by auto
next
  fix v h w assume v: "v \<in> set seen" "f v = Some h" "w \<in> set (e h)" "f w \<noteq> None"
  with inv have "w \<in> set seen \<union> set (u # q)"
    unfolding crawl_inv_def by blast
  with skip v(4) show "w \<in> set seen \<union> set q" by auto
qed

lemma crawl_inv_popped_reachable:
  assumes "crawl_inv f e seeds seen (u # q)" and "f u = Some h"
  shows "u \<in> reachable_ok f e seeds"
proof -
  from assms(1) have sub: "set seen \<subseteq> reachable_ok f e seeds"
    by (simp add: crawl_inv_def)
  from assms(1) have "u \<in> set seeds \<or> (\<exists>v\<in>set seen. \<exists>h. f v = Some h \<and> u \<in> set (e h))"
    by (simp add: crawl_inv_def)
  then show ?thesis
  proof
    assume "u \<in> set seeds"
    then show ?thesis using assms(2) by (rule reachable_ok.seed)
  next
    assume "\<exists>v\<in>set seen. \<exists>h. f v = Some h \<and> u \<in> set (e h)"
    then obtain v hv where v: "v \<in> set seen" "f v = Some hv" "u \<in> set (e hv)" by blast
    with sub have "v \<in> reachable_ok f e seeds" by blast
    from this v(2) v(3) assms(2) show ?thesis by (rule reachable_ok.link)
  qed
qed

lemma crawl_inv_visit:
  assumes inv: "crawl_inv f e seeds seen (u # q)" and new: "u \<notin> set seen" and ok: "f u = Some h"
  shows "crawl_inv f e seeds (seen @ [u]) (q @ filter (\<lambda>nxt. nxt \<notin> set (seen @ [u])) (e h))"
    (is "crawl_inv f e seeds ?seen ?q")
proof -
  have r: "u \<in> reachable_ok f e seeds"
    using inv ok by (rule crawl_inv_popped_reachable)
  show ?thesis
    unfolding crawl_inv_def
  proof (intro conjI ballI allI impI)
    show "distinct ?seen"
      using inv new by (simp add: crawl_inv_def)
    show "set ?seen \<subseteq> reachable_ok f e seeds"
      using inv r by (simp add: crawl_inv_def)
  next
    fix x assume "x \<in> set ?q"
    then consider "x \<in> set (u # q)" | "x \<in> set (e h)" by auto
    then show "x \<in> set seeds \<or> (\<exists>v\<in>set ?seen. \<exists>h. f v = Some h \<and> x \<in> set (e h))"
    proof cases
      case 1
      with inv have "x \<in> set seeds \<or> (\<exists>v\<in>set seen. \<exists>h. f v = Some h \<and> x \<in> set (e h))"
        unfolding crawl_inv_def by blast
      then show ?thesis by auto
    next
      case 2
      with ok show ?thesis by auto
    qed
  next
    fix s assume s: "s \<in> set seeds" "f s \<noteq> None"
    with inv have "s \<in> set seen \<union> set (u # q)"
      unfolding crawl_inv_def by blast
    then show "s \<in> set ?seen \<union> set ?q" by auto
  next
    fix v h' w
    assume v: "v \<in> set ?seen" "f v = Some h'" "w \<in> set (e h')" "f w \<noteq> None"
    show "w \<in> set ?seen \<union> set ?q"
    proof (cases "v = u")
      case True
      with v(2) ok have "h' = h" by simp
      with v(3) show ?thesis by auto
    next
      case False
      with v(1) have "v \<in> set seen" by simp
      with inv v(2,3,4) have "w \<in> set seen \<union> set (u # q)"
        unfolding crawl_inv_def by blast
      then show ?thesis by auto
    qed
  qed
qed

lemma crawl_inv_final:
  assumes "crawl_inv f e seeds seen []"
  shows "set seen = reachable_ok f e seeds"
proof
  show "set seen \<subseteq> reachable_ok f e seeds"
    using assms by (simp add: crawl_inv_def)
  show "reachable_ok f e seeds \<subseteq> set seen"
  proof
    fix x assume "x \<in> reachable_ok f e seeds"
    then show "x \<in> set seen"
    proof (induction rule: reachable_ok.induct)
      case (seed s h)
      with assms show ?case by (auto simp: crawl_inv_def)
    next
      case (link v h w h')
      with assms show ?case by (auto simp: crawl_inv_def)
    qed
  qed
qed

lemma crawl_loop_total:
  assumes fin: "finite {u. f u \<noteq> None}"
  shows "crawl_inv f e seeds seen q \<Longrightarrow>
         \<exists>vis. crawl_loop f e seen q = Some vis \<and> distinct vis \<and> set vis = reachable_ok f e seeds"
proof (induction "card ({u. f u \<noteq> None} - set seen)" arbitrary: seen q rule: less_induct)
  case less
  from less.prems show ?case
  proof (induction q)
    case Nil
    then have "set seen = reachable_ok f e seeds" by (rule crawl_inv_final)
    moreover from Nil have "distinct seen" by (simp add: crawl_inv_def)
    ultimately show ?case by (simp add: crawl_loop_Nil)
  next
    case (Cons u q')
    show ?case
    proof (cases "u \<in> set seen \<or> f u = None")
      case True
      then have st: "crawl_step f e seen u q' = (seen, q')"
        by (auto simp: crawl_step_seen crawl_step_fail)
      have "crawl_inv f e seeds seen q'"
        using Cons.prems True by (rule crawl_inv_skip)
      then show ?thesis
        using Cons.IH by (simp add: crawl_loop_Cons st)
    next
      case False
      then obtain h where new: "u \<notin> set seen" and ok: "f u = Some h" by auto
      let ?q = "q' @ filter (\<lambda>nxt. nxt \<notin> set (seen @ [u])) (e h)"
      have st: "crawl_step f e seen u q' = (seen @ [u], ?q)"
        using new ok by (rule crawl_step_ok)
      have inv': "crawl_inv f e seeds (seen @ [u]) ?q"
        using Cons.prems new ok by (rule crawl_inv_visit)
      have "{u. f u \<noteq> None} - set (seen @ [u]) \<subset> {u. f u \<noteq> None} - set seen"
        using new ok by auto
      then have "card ({u. f u \<noteq> None} - set (seen @ [u])) < card ({u. f u \<noteq> None} - set seen)"
        using fin by (intro psubset_card_mono) auto
      from less.hyps[OF this inv'] show ?thesis
        by (simp add: crawl_loop_Cons st)
    qed
  qed
qed

lemma finite_graph_fetch: "finite {u. graph_fetch g u \<noteq> None}"
proof -
  have "{u. graph_fetch g u \<noteq> None} = dom (map_of g)"
    by (auto simp: graph_fetch_def)
  then show ?thesis by (simp add: finite_dom_map_of)
qed

text \<open>
  C1. For every seed list and every link graph standing in for the fetch and
  link-extraction collaborators, the crawl returns (it terminates and raises nothing) a
  duplicate-free list holding exactly the pages that are reachable from the seeds through
  successfully fetched pages and are themselves fetched successfully; a URL whose fetch
  fails is never in the result; when every seed's fetch fails the result is the empty list.
\<close>

theorem crawl_all_reachable:
  "\<exists>vis. crawl_all (graph_fetch g) graph_links seeds = Some vis \<and>
         distinct vis \<and>
         set vis = reachable_ok (graph_fetch g) graph_links seeds \<and>
         (\<forall>u\<in>set vis. graph_fetch g u \<noteq> None) \<and>
         ((\<forall>s\<in>set seeds. graph_fetch g s = None) \<longrightarrow> vis = [])"
proof -
  from crawl_loop_total[OF finite_graph_fetch crawl_inv_init]
  obtain vis where vis: "crawl_loop (graph_fetch g) graph_links [] seeds = Some vis"
    "distinct vis" "set vis = reachable_ok (graph_fetch g) graph_links seeds"
    by blast
  have ok: "\<forall>u\<in>set vis. graph_fetch g u \<noteq> None"
    unfolding vis(3) by (auto elim: reachable_ok.cases)
  have "vis = []" if "\<forall>s\<in>set seeds. graph_fetch g s = None"
  proof -
    have "reachable_ok (graph_fetch g) graph_links seeds = {}"
    proof -
      have "x \<notin> reachable_ok (graph_fetch g) graph_links seeds" for x
      proof
        assume "x \<in> reachable_ok (graph_fetch g) graph_links seeds"
        then show False
          using that by (induction rule: reachable_ok.induct) auto
      qed
      then show ?thesis by blast
    qed
    with vis(3) show ?thesis by simp
  qed
  with vis ok show ?thesis
    by (auto simp: crawl_all_def)
qed

theorem crawl_all_reachable_witness:
  "crawl_all (graph_fetch [(''a'', [''b'', ''c'']), (''b'', [''a'', ''d'']), (''d'', [])])
      graph_links [''a'', ''x''] = Some [''a'', ''b'', ''d''] \<and>
   reachable_ok (graph_fetch [(''a'', [''b'', ''c'']), (''b'', [''a'', ''d'']), (''d'', [])])
      graph_links [''a'', ''x''] = {''a'', ''b'', ''d''} \<and>
   crawl_all (graph_fetch [(''a'', [''b''])]) graph_links [''x''] = Some []"
proof -
  let ?g = "[(''a'', [''b'', ''c'']), (''b'', [''a'', ''d'']), (''d'', [])]"
  have run: "crawl_all (graph_fetch ?g) graph_links [''a'', ''x''] = Some [''a'', ''b'', ''d'']"
    by (simp add: crawl_all_def crawl_loop_Cons crawl_loop_Nil crawl_step_def
        graph_fetch_def graph_links_def)
  have run2: "crawl_all (graph_fetch [(''a'', [''b''])]) graph_links [''x''] = Some []"
    by (simp add: crawl_all_def crawl_loop_Cons crawl_loop_Nil crawl_step_def
        graph_fetch_def graph_links_def)
  from crawl_all_reachable[of ?g "[''a'', ''x'']"] run
  have "reachable_ok (graph_fetch ?g) graph_links [''a'', ''x''] = set [''a'', ''b'', ''d'']"
    by auto
  with run run2 show ?thesis by simp
qed




subsection \<open>Sequencer: proofs\<close>













text \<open>
  C2. The claim that no URL is duplicated in the output does not hold for the code: a URL
  that contains both \<^verbatim>\<open>/artigos/\<close> and \<^verbatim>\<open>/faq/\<close> passes the filter of the articles bucket
  and the filter of the FAQ bucket (only the filter of the last bucket excludes the other
  two), and is emitted twice.
\<close>

theorem order_urls_both_markers_twice:
  "order_urls (\<lambda>h. True) [''https://engsoftmoderna.info/artigos/faq/x.html''] =
     Some [''https://engsoftmoderna.info/artigos/faq/x.html'',
           ''https://engsoftmoderna.info/artigos/faq/x.html'']"
  by code_simp




subsection \<open>Characters and strings: proofs\<close>

lemma ascii_alpha_facts:
  assumes "ascii_alpha c"
  shows "\<not> c0_control_or_space c" "\<not> unsafe_byte c" "c \<noteq> CHR '':''" "c \<in> set scheme_chars"
    "\<not> netloc_delim c" "c \<noteq> CHR ''[''" "c \<noteq> CHR '']''" "\<not> is_space c" "c \<noteq> CHR '';''"
    "c \<noteq> CHR ''/''" "c \<noteq> CHR 0x0A" "c \<noteq> CHR ''#''" "c \<noteq> CHR ''?''"
  using assms
  by (auto simp: ascii_alpha_def c0_control_or_space_def unsafe_byte_def scheme_chars_def
      netloc_delim_def is_space_def)

lemma char_of_eq_code: "(char_of (n::nat) = c) = (n mod 256 = of_char c)"
proof -
  have "(char_of n = c) = (char_of n = char_of (of_char c :: nat))"
    by (simp only: char_of_char)
  also have "\<dots> = (n mod 256 = (of_char c :: nat) mod 256)"
    by (rule char_of_quasi_inj)
  also have "\<dots> = (n mod 256 = of_char c)"
    by simp
  finally show ?thesis .
qed

lemma lower_char_cases:
  assumes "lower_char c = d" and "(of_char d :: nat) < 128"
  shows "c = d \<or> (of_char d = (of_char c :: nat) + 32 \<and> 65 \<le> (of_char c :: nat) \<and> (of_char c :: nat) \<le> 90)"
proof (cases "(65 \<le> (of_char c :: nat) \<and> (of_char c :: nat) \<le> 90) \<or>
              (192 \<le> (of_char c :: nat) \<and> (of_char c :: nat) \<le> 222 \<and> (of_char c :: nat) \<noteq> 215)")
  case False
  with assms(1) show ?thesis by (simp add: lower_char_def Let_def)
next
  case True
  with assms(1) have "d = char_of ((of_char c :: nat) + 32)"
    by (auto simp: lower_char_def Let_def)
  then have "(of_char d :: nat) = (of_char c + 32) mod 256"
    by (simp add: of_char_of)
  moreover have "(of_char c :: nat) + 32 < 256" using True by auto
  ultimately have "(of_char d :: nat) = of_char c + 32" by simp
  with assms(2) True show ?thesis by auto
qed

lemma lower_char_symbol:
  assumes "lower_char c = d" and "(of_char d :: nat) < 97"
  shows "c = d"
  using lower_char_cases[OF assms(1)] assms(2) by auto

lemma lower_char_letter:
  assumes "lower_char c = d" and "d \<in> set ''abcdefghijklmnopqrstuvwxyz''"
  shows "ascii_alpha c"
proof -
  have lt: "(of_char d :: nat) < 128" using assms(2) by auto
  from lower_char_cases[OF assms(1) lt] show ?thesis
  proof
    assume "c = d"
    with assms(2) show ?thesis by (auto simp: ascii_alpha_def)
  next
    assume a: "of_char d = (of_char c :: nat) + 32 \<and> 65 \<le> (of_char c :: nat) \<and> (of_char c :: nat) \<le> 90"
    then have "c = char_of ((of_char d :: nat) - 32)"
      by (metis add_diff_cancel_right' char_of_char)
    with assms(2) show ?thesis
      by (auto simp: ascii_alpha_def char_of_eq_code)
  qed
qed

lemma str_lower_symbols:
  assumes "str_lower X = Y" and "\<forall>d\<in>set Y. (of_char d :: nat) < 97"
  shows "X = Y"
  using assms
proof (induction X arbitrary: Y)
  case Nil
  then show ?case by (simp add: str_lower_def)
next
  case (Cons c X)
  then obtain d Y' where Y: "Y = d # Y'" "lower_char c = d" "str_lower X = Y'"
    by (auto simp: str_lower_def)
  with Cons.prems(2) have "c = d" by (auto intro: lower_char_symbol)
  moreover have "X = Y'" using Cons.IH[OF Y(3)] Cons.prems(2) Y(1) by simp
  ultimately show ?case using Y(1) by simp
qed

lemma str_lower_letters:
  assumes "str_lower X = Y"
    and "\<forall>d\<in>set Y. d \<in> set ''abcdefghijklmnopqrstuvwxyz'' \<or> d = CHR ''.''"
  shows "\<forall>c\<in>set X. ascii_alpha c \<or> c = CHR ''.''"
proof
  fix c assume "c \<in> set X"
  then have "lower_char c \<in> set Y"
    using assms(1) by (auto simp: str_lower_def)
  with assms(2) have "lower_char c \<in> set ''abcdefghijklmnopqrstuvwxyz'' \<or> lower_char c = CHR ''.''"
    by blast
  then show "ascii_alpha c \<or> c = CHR ''.''"
  proof
    assume "lower_char c \<in> set ''abcdefghijklmnopqrstuvwxyz''"
    then show ?thesis using lower_char_letter[OF refl] by blast
  next
    assume "lower_char c = CHR ''.''"
    then have "c = CHR ''.''" by (rule lower_char_symbol) simp
    then show ?thesis by simp
  qed
qed

lemma str_lower_take: "str_lower (take n X) = take n (str_lower X)"
  by (simp add: str_lower_def take_map)

lemma str_lower_drop: "str_lower (drop n X) = drop n (str_lower X)"
  by (simp add: str_lower_def drop_map)

text \<open>A string that equals the origin up to case: scheme, \<^verbatim>\<open>://\<close>, host.\<close>

lemma lower_char_dot: "lower_char (CHR ''.'') = CHR ''.''"
  by (simp add: lower_char_def)

lemma origin_decomp:
  assumes "str_lower P = ''https://engsoftmoderna.info''"
  shows "\<exists>S H. P = S @ ''://'' @ H \<and> str_lower S = ''https'' \<and>
           str_lower H = ''engsoftmoderna.info'' \<and> length S = 5 \<and> length H = 19 \<and>
           (\<forall>c\<in>set S. ascii_alpha c) \<and> (\<forall>c\<in>set H. ascii_alpha c \<or> c = CHR ''.'')"
proof -
  define S where "S = take 5 P"
  define M where "M = take 3 (drop 5 P)"
  define H where "H = drop 8 P"
  have len: "length P = 27"
    using arg_cong[OF assms, of length] by (simp add: str_lower_def)
  have "drop 5 P = M @ H"
  proof -
    have "take 3 (drop 5 P) @ drop 3 (drop 5 P) = drop 5 P"
      by (rule append_take_drop_id)
    moreover have "drop 3 (drop 5 P) = drop 8 P" by simp
    ultimately show ?thesis by (simp only: M_def H_def)
  qed
  then have P: "P = S @ M @ H"
    unfolding S_def by (metis append_take_drop_id)
  have S: "str_lower S = ''https''"
    unfolding S_def by (simp add: str_lower_take assms)
  have M: "str_lower M = ''://''"
    unfolding M_def by (simp add: str_lower_take str_lower_drop assms)
  have H: "str_lower H = ''engsoftmoderna.info''"
    unfolding H_def by (simp add: str_lower_drop assms)
  have M': "M = ''://''"
    using M by (rule str_lower_symbols) simp
  have Sd: "\<forall>c\<in>set S. ascii_alpha c \<or> c = CHR ''.''"
    using S by (rule str_lower_letters) simp
  have Sa: "\<forall>c\<in>set S. ascii_alpha c"
  proof
    fix c assume c: "c \<in> set S"
    have "lower_char c \<in> set (str_lower S)" using c by (simp add: str_lower_def)
    then have "lower_char c \<in> set ''https''" using S by simp
    then have "lower_char c \<noteq> CHR ''.''" by auto
    then have "c \<noteq> CHR ''.''" using lower_char_dot by auto
    with Sd c show "ascii_alpha c" by blast
  qed
  have Ha: "\<forall>c\<in>set H. ascii_alpha c \<or> c = CHR ''.''"
    using H by (rule str_lower_letters) simp
  have l: "length S = 5" "length H = 19"
    using len by (simp_all add: S_def H_def)
  from P M' S H l Sa Ha show ?thesis by blast
qed

subsection \<open>The URL library: proofs\<close>

lemma takeWhile_all: "\<forall>x\<in>set xs. P x \<Longrightarrow> takeWhile P (xs @ ys) = xs @ takeWhile P ys"
  by (induction xs) auto

lemma dropWhile_all: "\<forall>x\<in>set xs. P x \<Longrightarrow> dropWhile P (xs @ ys) = dropWhile P ys"
  by (induction xs) auto

lemma takeWhile_delim_head: "ys = [] \<or> \<not> P (hd ys) \<Longrightarrow> takeWhile P ys = []"
  by (cases ys) auto

lemma dropWhile_delim_head: "ys = [] \<or> \<not> P (hd ys) \<Longrightarrow> dropWhile P ys = ys"
  by (cases ys) auto

lemma takeWhile_not_mem: "c \<notin> set xs \<Longrightarrow> takeWhile (\<lambda>x. x \<noteq> c) xs = xs"
  by (induction xs) auto

lemma dropWhile_not_mem: "c \<notin> set xs \<Longrightarrow> dropWhile (\<lambda>x. x \<noteq> c) xs = []"
  by (induction xs) auto

lemma split1_fst_if:
  "(if c \<in> set xs then fst (split1 c xs) else xs) = takeWhile (\<lambda>x. x \<noteq> c) xs"
  by (simp add: split1_def takeWhile_not_mem)

lemma split1_snd_if:
  "(if c \<in> set xs then snd (split1 c xs) else []) = drop 1 (dropWhile (\<lambda>x. x \<noteq> c) xs)"
  by (simp add: split1_def dropWhile_not_mem)

lemma split_query_fragment_eq:
  "split_query_fragment url3 =
     (takeWhile (\<lambda>c. c \<noteq> CHR ''?'') (takeWhile (\<lambda>c. c \<noteq> CHR ''#'') url3),
      drop 1 (dropWhile (\<lambda>c. c \<noteq> CHR ''?'') (takeWhile (\<lambda>c. c \<noteq> CHR ''#'') url3)),
      drop 1 (dropWhile (\<lambda>c. c \<noteq> CHR ''#'') url3))"
  unfolding split_query_fragment_def Let_def split1_fst_if split1_snd_if ..

lemma split_scheme_found:
  assumes "S \<noteq> []" and "\<forall>c\<in>set S. ascii_alpha c"
  shows "split_scheme (S @ CHR '':'' # T) s1 = (str_lower S, T)"
proof -
  obtain s S' where Sc: "S = s # S'" using assms(1) by (cases S) auto
  have ne: "\<forall>c\<in>set S. c \<noteq> CHR '':''"
    using assms(2) ascii_alpha_facts(3) by blast
  have pre: "takeWhile (\<lambda>c. c \<noteq> CHR '':'') (S @ CHR '':'' # T) = S"
    using ne by (simp add: takeWhile_all)
  have rest: "dropWhile (\<lambda>c. c \<noteq> CHR '':'') (S @ CHR '':'' # T) = CHR '':'' # T"
    using ne by (simp add: dropWhile_all)
  have hd: "ascii_alpha (hd (S @ CHR '':'' # T))"
    using assms(2) by (simp add: Sc)
  have sc: "\<forall>c\<in>set S. c \<in> set scheme_chars"
    using assms(2) ascii_alpha_facts(4) by blast
  show ?thesis
    unfolding split_scheme_def Let_def pre split1_def rest
    using assms(1) hd sc by simp
qed

lemma split_netloc_plain:
  assumes "\<forall>c\<in>set N. \<not> netloc_delim c \<and> c \<noteq> CHR ''['' \<and> c \<noteq> CHR '']''"
    and "R = [] \<or> netloc_delim (hd R)"
  shows "split_netloc valid_host (''//'' @ N @ R) = Some (N, R)"
proof -
  have nl: "takeWhile (\<lambda>c. \<not> netloc_delim c) (N @ R) = N"
    using assms by (simp add: takeWhile_all takeWhile_delim_head)
  have url3: "dropWhile (\<lambda>c. \<not> netloc_delim c) (N @ R) = R"
    using assms by (simp add: dropWhile_all dropWhile_delim_head)
  have br: "brackets_ok valid_host N"
    using assms(1) by (auto simp: brackets_ok_def)
  have sn: "splitnetloc (''//'' @ N @ R) = (N, R)"
    by (simp add: splitnetloc_def nl url3)
  show ?thesis
    unfolding split_netloc_def sn using br by simp
qed

text \<open>
  \<^verbatim>\<open>urlsplit\<close> on a URL that starts with a scheme of ASCII letters, \<^verbatim>\<open>://\<close> and a network
  location without delimiters or brackets.
\<close>

lemma urlsplit_origin:
  assumes S: "S \<noteq> []" "\<forall>c\<in>set S. ascii_alpha c"
    and N: "\<forall>c\<in>set N. \<not> netloc_delim c \<and> \<not> unsafe_byte c \<and> c \<noteq> CHR ''['' \<and> c \<noteq> CHR '']''"
    and R: "filter (\<lambda>c. \<not> unsafe_byte c) R = R'" "R' = [] \<or> netloc_delim (hd R')"
  shows "urlsplit valid_host (S @ ''://'' @ N @ R) s0 =
           Some (str_lower S, N,
                 takeWhile (\<lambda>c. c \<noteq> CHR ''?'') (takeWhile (\<lambda>c. c \<noteq> CHR ''#'') R'),
                 drop 1 (dropWhile (\<lambda>c. c \<noteq> CHR ''?'') (takeWhile (\<lambda>c. c \<noteq> CHR ''#'') R')),
                 drop 1 (dropWhile (\<lambda>c. c \<noteq> CHR ''#'') R'))"
proof -
  let ?url0 = "S @ ''://'' @ N @ R"
  obtain s S' where Sc: "S = s # S'" using S(1) by (cases S) auto
  have s: "ascii_alpha s" using S(2) Sc by simp
  have d: "dropWhile c0_control_or_space ?url0 = ?url0"
    using ascii_alpha_facts(1)[OF s] by (simp add: Sc)
  have fS: "filter (\<lambda>c. \<not> unsafe_byte c) S = S"
    using S(2) ascii_alpha_facts(2) by (simp add: filter_id_conv)
  have fN: "filter (\<lambda>c. \<not> unsafe_byte c) N = N"
    using N by (simp add: filter_id_conv)
  have url1: "filter (\<lambda>c. \<not> unsafe_byte c) (dropWhile c0_control_or_space ?url0) =
              S @ CHR '':'' # (''//'' @ N @ R')"
    unfolding d using R(1) fS fN by (simp add: unsafe_byte_def)
  have N': "\<forall>c\<in>set N. \<not> netloc_delim c \<and> c \<noteq> CHR ''['' \<and> c \<noteq> CHR '']''"
    using N by blast
  show ?thesis
    unfolding urlsplit_def Let_def url1 split_scheme_found[OF S] fst_conv snd_conv
      split_netloc_plain[OF N' R(2)] split_query_fragment_eq
    by simp
qed
lemma host_char_facts:
  assumes "ascii_alpha c \<or> c = CHR ''.''"
  shows "\<not> netloc_delim c" "\<not> unsafe_byte c" "c \<noteq> CHR ''[''" "c \<noteq> CHR '']''"
    "c \<noteq> CHR ''/''" "c \<noteq> CHR 0x0A" "c \<noteq> CHR ''#''" "c \<noteq> CHR ''?''" "c \<noteq> CHR '';''"
proof -
  have "\<not> netloc_delim c \<and> \<not> unsafe_byte c \<and> c \<noteq> CHR ''['' \<and> c \<noteq> CHR '']'' \<and>
        c \<noteq> CHR ''/'' \<and> c \<noteq> CHR 0x0A \<and> c \<noteq> CHR ''#'' \<and> c \<noteq> CHR ''?'' \<and> c \<noteq> CHR '';''"
    using assms
  proof
    assume a: "ascii_alpha c"
    from ascii_alpha_facts[OF a] show ?thesis by simp
  next
    assume "c = CHR ''.''"
    then show ?thesis by (simp add: netloc_delim_def unsafe_byte_def)
  qed
  then show "\<not> netloc_delim c" "\<not> unsafe_byte c" "c \<noteq> CHR ''[''" "c \<noteq> CHR '']''"
    "c \<noteq> CHR ''/''" "c \<noteq> CHR 0x0A" "c \<noteq> CHR ''#''" "c \<noteq> CHR ''?''" "c \<noteq> CHR '';''"
    by simp_all
qed

lemma is_internal_decomp:
  assumes "is_internal u"
  obtains S H R where "u = S @ ''://'' @ H @ R" and "str_lower S = ''https''"
    and "str_lower H = ''engsoftmoderna.info''" and "length S = 5" and "length H = 19"
    and "\<forall>c\<in>set S. ascii_alpha c" and "\<forall>c\<in>set H. ascii_alpha c \<or> c = CHR ''.''"
    and "at_end R \<or> (take 1 R = ''/'' \<and> at_end (dropWhile (\<lambda>c. c \<noteq> CHR 0x0A) (drop 1 R)))"
proof -
  from assms have low: "str_lower (take 27 u) = ''https://engsoftmoderna.info''"
    and tail: "at_end (drop 27 u) \<or>
               (take 1 (drop 27 u) = ''/'' \<and> at_end (dropWhile (\<lambda>c. c \<noteq> CHR 0x0A) (drop 28 u)))"
    by (simp_all add: is_internal_def)
  from origin_decomp[OF low] obtain S H where
    SH: "take 27 u = S @ ''://'' @ H" "str_lower S = ''https''"
      "str_lower H = ''engsoftmoderna.info''" "length S = 5" "length H = 19"
      "\<forall>c\<in>set S. ascii_alpha c" "\<forall>c\<in>set H. ascii_alpha c \<or> c = CHR ''.''"
    by blast
  have "(S @ ''://'' @ H) @ drop 27 u = u"
    unfolding SH(1)[symmetric] by (rule append_take_drop_id)
  then have u: "u = S @ ''://'' @ H @ drop 27 u"
    by (simp only: append_assoc)
  have "drop 28 u = drop 1 (drop 27 u)" by simp
  with tail have "at_end (drop 27 u) \<or>
      (take 1 (drop 27 u) = ''/'' \<and> at_end (dropWhile (\<lambda>c. c \<noteq> CHR 0x0A) (drop 1 (drop 27 u))))"
    by (simp only:)
  then have t: "at_end (drop 27 u) \<or>
      (take 1 (drop 27 u) = ''/'' \<and> at_end (dropWhile (\<lambda>c. c \<noteq> CHR 0x0A) (drop 1 (drop 27 u))))" .
  from u SH(2-7) t show ?thesis by (rule that)
qed

lemma internal_tail_clean:
  assumes "at_end R \<or> (take 1 R = ''/'' \<and> at_end (dropWhile (\<lambda>c. c \<noteq> CHR 0x0A) (drop 1 R)))"
  shows "filter (\<lambda>c. \<not> unsafe_byte c) R = [] \<or> netloc_delim (hd (filter (\<lambda>c. \<not> unsafe_byte c) R))"
  using assms
proof
  assume "at_end R"
  then show ?thesis by (auto simp: at_end_def unsafe_byte_def)
next
  assume "take 1 R = ''/'' \<and> at_end (dropWhile (\<lambda>c. c \<noteq> CHR 0x0A) (drop 1 R))"
  then obtain R0 where "R = CHR ''/'' # R0" by (cases R) auto
  then show ?thesis by (simp add: unsafe_byte_def netloc_delim_def)
qed

text \<open>An internal URL is split without an exception, into the scheme \<^verbatim>\<open>https\<close> and the host.\<close>

lemma urlsplit_internal:
  assumes "is_internal u"
  obtains H p q f where "urlsplit valid_host u s0 = Some (''https'', H, p, q, f)"
    and "str_lower H = ''engsoftmoderna.info''"
proof -
  from assms obtain S H R where
    d: "u = S @ ''://'' @ H @ R" "str_lower S = ''https''"
      "str_lower H = ''engsoftmoderna.info''" "length S = 5" "length H = 19"
      "\<forall>c\<in>set S. ascii_alpha c" "\<forall>c\<in>set H. ascii_alpha c \<or> c = CHR ''.''"
      "at_end R \<or> (take 1 R = ''/'' \<and> at_end (dropWhile (\<lambda>c. c \<noteq> CHR 0x0A) (drop 1 R)))"
    by (rule is_internal_decomp)
  have S: "S \<noteq> []" using d(4) by auto
  have N: "\<forall>c\<in>set H. \<not> netloc_delim c \<and> \<not> unsafe_byte c \<and> c \<noteq> CHR ''['' \<and> c \<noteq> CHR '']''"
  proof
    fix c assume "c \<in> set H"
    with d(7) have c: "ascii_alpha c \<or> c = CHR ''.''" by (rule bspec)
    from host_char_facts(1-4)[OF c]
    show "\<not> netloc_delim c \<and> \<not> unsafe_byte c \<and> c \<noteq> CHR ''['' \<and> c \<noteq> CHR '']''"
      by (intro conjI)
  qed
  from urlsplit_origin[OF S d(6) N refl internal_tail_clean[OF d(8)], of valid_host s0]
  have "urlsplit valid_host u s0 =
     Some (''https'', H,
       takeWhile (\<lambda>c. c \<noteq> CHR ''?'') (takeWhile (\<lambda>c. c \<noteq> CHR ''#'') (filter (\<lambda>c. \<not> unsafe_byte c) R)),
       drop 1 (dropWhile (\<lambda>c. c \<noteq> CHR ''?'') (takeWhile (\<lambda>c. c \<noteq> CHR ''#'') (filter (\<lambda>c. \<not> unsafe_byte c) R))),
       drop 1 (dropWhile (\<lambda>c. c \<noteq> CHR ''#'') (filter (\<lambda>c. \<not> unsafe_byte c) R)))"
    unfolding d(1) d(2) .
  then show thesis using d(3) by (rule that)
qed

lemma url_path_internal:
  assumes "is_internal u"
  shows "url_path valid_host u \<noteq> None"
proof -
  from assms obtain H p q f where
    "urlsplit valid_host u [] = Some (''https'', H, p, q, f)"
    by (rule urlsplit_internal)
  then show ?thesis
    by (simp add: url_path_def urlparse_def Let_def)
qed



subsection \<open>Page renderer: proofs\<close>

lemma write_file_names: "fst ` set (write_file name doc d) = insert name (fst ` set d)"
proof (cases "name \<in> fst ` set d")
  case False
  then show ?thesis by (simp add: write_file_def)
next
  case True
  have "fst ` set (map (\<lambda>(n, c). if n = name then (n, doc) else (n, c)) d) = fst ` set d"
    by (induction d) (auto split: if_splits)
  with True show ?thesis by (auto simp: write_file_def)
qed

lemma render_loop_batch:
  assumes "\<forall>u\<in>set us. url_path valid_host u \<noteq> None"
  shows "\<exists>st'. render_loop valid_host goto pdf idx us st = (Done, st') \<and>
           closed st' = closed st + 1 \<and>
           attempted st' = attempted st @ us \<and>
           console st' = console st @
             map (\<lambda>(i, u). if rendered goto pdf u
                             then OK (path_join OUT_DIR (artifact valid_host i u)) else ERRO u)
               (zip [idx ..< idx + length us] us) \<and>
           fst ` set (dir st) \<subseteq> fst ` set (dir st') \<and>
           (\<forall>i<length us. rendered goto pdf (us ! i) \<longrightarrow>
              artifact valid_host (idx + i) (us ! i) \<in> fst ` set (dir st'))"
  using assms
proof (induction us arbitrary: idx st)
  case Nil
  then show ?case by simp
next
  case (Cons u us)
  from Cons.prems obtain p where p: "url_path valid_host u = Some p" by auto
  have rest: "\<forall>u\<in>set us. url_path valid_host u \<noteq> None" using Cons.prems by simp
  have up: "[idx ..< idx + length (u # us)] = idx # [Suc idx ..< Suc idx + length us]"
    by (simp add: upt_rec)
  let ?st1 = "st\<lparr>attempted := attempted st @ [u]\<rparr>"
  show ?case
  proof (cases "rendered goto pdf u")
    case False
    let ?st2 = "?st1\<lparr>console := console ?st1 @ [ERRO u]\<rparr>"
    from Cons.IH[OF rest, of "Suc idx" ?st2] obtain st' where
      st': "render_loop valid_host goto pdf (Suc idx) us ?st2 = (Done, st')"
        "closed st' = closed ?st2 + 1" "attempted st' = attempted ?st2 @ us"
        "console st' = console ?st2 @
             map (\<lambda>(i, u). if rendered goto pdf u
                             then OK (path_join OUT_DIR (artifact valid_host i u)) else ERRO u)
               (zip [Suc idx ..< Suc idx + length us] us)"
        "fst ` set (dir ?st2) \<subseteq> fst ` set (dir st')"
        "\<forall>i<length us. rendered goto pdf (us ! i) \<longrightarrow>
              artifact valid_host (Suc idx + i) (us ! i) \<in> fst ` set (dir st')"
      by blast
    have run: "render_loop valid_host goto pdf idx (u # us) st = (Done, st')"
      using False p st'(1) by (auto simp: rendered_def Let_def split: option.splits)
    have art: "\<forall>i<length (u # us). rendered goto pdf ((u # us) ! i) \<longrightarrow>
              artifact valid_host (idx + i) ((u # us) ! i) \<in> fst ` set (dir st')"
    proof (intro allI impI)
      fix i assume i: "i < length (u # us)" "rendered goto pdf ((u # us) ! i)"
      with False obtain j where j: "i = Suc j" by (cases i) auto
      with i st'(6) show "artifact valid_host (idx + i) ((u # us) ! i) \<in> fst ` set (dir st')"
        by simp
    qed
    show ?thesis
      using run st'(2,3,4,5) art False unfolding up by (intro exI[of _ st']) simp
  next
    case True
    then obtain doc where doc: "goto u" "pdf u = Some doc" by (auto simp: rendered_def)
    let ?st2 = "?st1\<lparr>dir := write_file (page_file idx p) doc (dir ?st1),
                       console := console ?st1 @ [OK (path_join OUT_DIR (page_file idx p))]\<rparr>"
    from Cons.IH[OF rest, of "Suc idx" ?st2] obtain st' where
      st': "render_loop valid_host goto pdf (Suc idx) us ?st2 = (Done, st')"
        "closed st' = closed ?st2 + 1" "attempted st' = attempted ?st2 @ us"
        "console st' = console ?st2 @
             map (\<lambda>(i, u). if rendered goto pdf u
                             then OK (path_join OUT_DIR (artifact valid_host i u)) else ERRO u)
               (zip [Suc idx ..< Suc idx + length us] us)"
        "fst ` set (dir ?st2) \<subseteq> fst ` set (dir st')"
        "\<forall>i<length us. rendered goto pdf (us ! i) \<longrightarrow>
              artifact valid_host (Suc idx + i) (us ! i) \<in> fst ` set (dir st')"
      by blast
    have run: "render_loop valid_host goto pdf idx (u # us) st = (Done, st')"
      using doc p st'(1) by (simp add: Let_def)
    have a: "artifact valid_host idx u = page_file idx p"
      by (simp add: artifact_def p)
    have names: "fst ` set (dir ?st2) = insert (page_file idx p) (fst ` set (dir st))"
      by (simp add: write_file_names)
    have art: "\<forall>i<length (u # us). rendered goto pdf ((u # us) ! i) \<longrightarrow>
              artifact valid_host (idx + i) ((u # us) ! i) \<in> fst ` set (dir st')"
    proof (intro allI impI)
      fix i assume i: "i < length (u # us)" "rendered goto pdf ((u # us) ! i)"
      show "artifact valid_host (idx + i) ((u # us) ! i) \<in> fst ` set (dir st')"
      proof (cases i)
        case 0
        then show ?thesis using a names st'(5) by auto
      next
        case (Suc j)
        with i st'(6) show ?thesis by simp
      qed
    qed
    have sub: "fst ` set (dir st) \<subseteq> fst ` set (dir st')"
      using names st'(5) by auto
    show ?thesis
      using run st'(2,3,4) sub art True a unfolding up by (intro exI[of _ st']) simp
  qed
qed
subsection \<open>Document merger: proofs\<close>

lemma add_pages_eq:
  "add_pages (w, a) rs = (w @ pages_before_error rs, a + length (pages_before_error rs))"
proof (induction rs arbitrary: w a)
  case Nil
  then show ?case by simp
next
  case (Cons r rs)
  then show ?case by (cases r) simp_all
qed

lemma append_le_append: "(xs @ a \<le> xs @ b) = (a \<le> b)" for xs :: "'a::linorder list"
  by (induction xs) (simp_all add: Cons_le_Cons)

lemma path_join_le: "(path_join D a \<le> path_join D b) = (a \<le> b)"
proof -
  have "path_join D a = (D @ ''/'') @ a" "path_join D b = (D @ ''/'') @ b"
    by (simp_all add: path_join_def)
  then show ?thesis by (simp only: append_le_append)
qed

lemma path_join_inj: "inj (path_join D)"
  by (rule injI) (simp add: path_join_def)

lemma sorted_parts:
  "sort (map (path_join D) (filter P (map fst d))) =
   map (\<lambda>e. path_join D (fst e)) (sort_key fst (filter (\<lambda>e. P (fst e)) d))"
proof (rule properties_for_sort)
  have "filter P (map fst d) = map fst (filter (\<lambda>e. P (fst e)) d)"
    by (simp add: filter_map comp_def)
  then have "mset (map (path_join D) (filter P (map fst d))) =
             image_mset (\<lambda>e. path_join D (fst e)) (mset (filter (\<lambda>e. P (fst e)) d))"
    by (simp add: comp_def)
  then show "mset (map (\<lambda>e. path_join D (fst e)) (sort_key fst (filter (\<lambda>e. P (fst e)) d))) =
             mset (map (path_join D) (filter P (map fst d)))"
    by simp
next
  have "sorted (map fst (sort_key fst (filter (\<lambda>e. P (fst e)) d)))"
    by (rule sorted_sort_key)
  then have "sorted_wrt (\<lambda>x y. fst x \<le> fst y) (sort_key fst (filter (\<lambda>e. P (fst e)) d))"
    by (simp only: sorted_map)
  then have "sorted_wrt (\<lambda>x y. path_join D (fst x) \<le> path_join D (fst y))
               (sort_key fst (filter (\<lambda>e. P (fst e)) d))"
    by (simp only: path_join_le)
  then show "sorted (map (\<lambda>e. path_join D (fst e)) (sort_key fst (filter (\<lambda>e. P (fst e)) d)))"
    by (simp only: sorted_map)
qed

lemma reader_entry:
  assumes "distinct (map fst d)" and "e \<in> set d"
  shows "map_of (map (\<lambda>(f, c). (path_join D f, c)) d) (path_join D (fst e)) = Some (snd e)"
proof -
  have "(fst e, snd e) \<in> set d" using assms(2) by simp
  with assms(1) have "map_of d (fst e) = Some (snd e)" by (rule map_of_is_SomeI)
  with path_join_inj show ?thesis by (rule map_of_mapk_SomeI)
qed

lemma foldl_merge_files:
  assumes "\<forall>e\<in>set es. reader (path_join D (fst e)) = Some (snd e)"
  shows "foldl (merge_file reader) (w, a) (map (\<lambda>e. path_join D (fst e)) es) =
         (w @ concat (map (\<lambda>e. contribution (snd e)) es),
          a + length (concat (map (\<lambda>e. contribution (snd e)) es)))"
  using assms
proof (induction es arbitrary: w a)
  case Nil
  then show ?case by simp
next
  case (Cons e es)
  have r: "reader (path_join D (fst e)) = Some (snd e)" using Cons.prems by simp
  have step: "merge_file reader (w, a) (path_join D (fst e)) =
              (w @ contribution (snd e), a + length (contribution (snd e)))"
    unfolding merge_file_def r by (cases "snd e") (simp_all add: add_pages_eq)
  have "\<forall>e\<in>set es. reader (path_join D (fst e)) = Some (snd e)" using Cons.prems by simp
  from Cons.IH[OF this] show ?case
    by (simp add: step)
qed

lemma merge_pdfs_sorted:
  assumes "distinct (map fst d)"
  shows "merge_pdfs d =
     (concat (map (\<lambda>e. contribution (snd e)) (sort_key fst (filter (\<lambda>e. is_pdf_name (fst e)) d))),
      length (concat (map (\<lambda>e. contribution (snd e))
                (sort_key fst (filter (\<lambda>e. is_pdf_name (fst e)) d)))),
      length (filter (\<lambda>e. is_pdf_name (fst e)) d))"
proof -
  let ?T = "sort_key fst (filter (\<lambda>e. is_pdf_name (fst e)) d)"
  let ?reader = "map_of (map (\<lambda>(f, c). (path_join OUT_DIR f, c)) d)"
  have parts: "sort (map (path_join OUT_DIR) (filter (\<lambda>f. endswith (str_lower f) ''.pdf'') (map fst d))) =
               map (\<lambda>e. path_join OUT_DIR (fst e)) ?T"
    unfolding is_pdf_name_def by (rule sorted_parts)
  have "\<forall>e\<in>set ?T. ?reader (path_join OUT_DIR (fst e)) = Some (snd e)"
  proof
    fix e assume "e \<in> set ?T"
    then have "e \<in> set d" by simp
    with assms show "?reader (path_join OUT_DIR (fst e)) = Some (snd e)" by (rule reader_entry)
  qed
  from foldl_merge_files[OF this, of "[]" 0]
  have f: "foldl (merge_file ?reader) ([], 0) (map (\<lambda>e. path_join OUT_DIR (fst e)) ?T) =
        (concat (map (\<lambda>e. contribution (snd e)) ?T),
         length (concat (map (\<lambda>e. contribution (snd e)) ?T)))"
    by simp
  show ?thesis
    unfolding merge_pdfs_def Let_def parts f by simp
qed

lemma contribution_parseable: "parseable c \<Longrightarrow> contribution c = all_pages c"
proof (cases c)
  case Unreadable
  then show ?thesis by simp
next
  case (Readable rs)
  assume "parseable c"
  with Readable have "PageError \<notin> set rs" by simp
  then have "pages_before_error rs = concat (map (\<lambda>r. case r of Page pg \<Rightarrow> [pg] | PageError \<Rightarrow> []) rs)"
  proof (induction rs)
    case Nil
    then show ?case by simp
  next
    case (Cons r rs)
    then show ?case by (cases r) simp_all
  qed
  with Readable show ?thesis by simp
qed
lemma write_file_distinct:
  assumes "distinct (map fst d)"
  shows "distinct (map fst (write_file name doc d))"
proof (cases "name \<in> fst ` set d")
  case False
  with assms show ?thesis by (simp add: write_file_def)
next
  case True
  have "map fst (map (\<lambda>(n, c). if n = name then (n, doc) else (n, c)) d) = map fst d"
    by (induction d) (auto split: if_splits)
  with assms have "distinct (map fst (map (\<lambda>(n, c). if n = name then (n, doc) else (n, c)) d))"
    by (simp only:)
  with True show ?thesis by (simp only: write_file_def if_True)
qed

lemma write_file_keeps:
  assumes "e \<in> set d" and "fst e \<noteq> name"
  shows "e \<in> set (write_file name doc d)"
proof (cases "name \<in> fst ` set d")
  case False
  with assms show ?thesis by (simp add: write_file_def)
next
  case True
  have "e \<in> (\<lambda>(n, c). if n = name then (n, doc) else (n, c)) ` set d"
  proof (rule image_eqI[of _ _ e])
    show "e = (case e of (n, c) \<Rightarrow> if n = name then (n, doc) else (n, c))"
      using assms(2) by (cases e) simp
    show "e \<in> set d" by (rule assms(1))
  qed
  with True show ?thesis by (simp add: write_file_def)
qed

text \<open>
  The render loop keeps the names of the directory distinct, and keeps every file that
  it does not overwrite with an artifact of the same name.
\<close>

lemma render_loop_dir:
  assumes "render_loop valid_host goto pdf idx us st = (out, st')"
  shows "(distinct (map fst (dir st)) \<longrightarrow> distinct (map fst (dir st'))) \<and>
         (\<forall>e\<in>set (dir st). e \<in> set (dir st') \<or>
            (\<exists>i<length us. rendered goto pdf (us ! i) \<and>
               fst e = artifact valid_host (idx + i) (us ! i)))"
  using assms
proof (induction us arbitrary: idx st)
  case Nil
  then show ?case by auto
next
  case (Cons u us)
  show ?case
  proof (cases "url_path valid_host u")
    case None
    with Cons.prems have "st' = st" by simp
    then show ?thesis by simp
  next
    case (Some p)
    let ?st1 = "st\<lparr>attempted := attempted st @ [u]\<rparr>"
    show ?thesis
    proof (cases "rendered goto pdf u")
      case False
      let ?st2 = "?st1\<lparr>console := console ?st1 @ [ERRO u]\<rparr>"
      have "render_loop valid_host goto pdf (Suc idx) us ?st2 = (out, st')"
        using Cons.prems False Some by (auto simp: rendered_def Let_def split: option.splits)
      from Cons.IH[OF this] have
        d: "distinct (map fst (dir st)) \<longrightarrow> distinct (map fst (dir st'))" and
        k: "\<forall>e\<in>set (dir st). e \<in> set (dir st') \<or>
            (\<exists>i<length us. rendered goto pdf (us ! i) \<and>
               fst e = artifact valid_host (Suc idx + i) (us ! i))"
        by simp_all
      have "\<forall>e\<in>set (dir st). e \<in> set (dir st') \<or>
            (\<exists>i<length (u # us). rendered goto pdf ((u # us) ! i) \<and>
               fst e = artifact valid_host (idx + i) ((u # us) ! i))"
      proof
        fix e assume "e \<in> set (dir st)"
        with k have "e \<in> set (dir st') \<or>
            (\<exists>i<length us. rendered goto pdf (us ! i) \<and>
               fst e = artifact valid_host (Suc idx + i) (us ! i))" by (rule bspec)
        then show "e \<in> set (dir st') \<or>
            (\<exists>i<length (u # us). rendered goto pdf ((u # us) ! i) \<and>
               fst e = artifact valid_host (idx + i) ((u # us) ! i))"
        proof
          assume "e \<in> set (dir st')" then show ?thesis by (rule disjI1)
        next
          assume "\<exists>i<length us. rendered goto pdf (us ! i) \<and>
               fst e = artifact valid_host (Suc idx + i) (us ! i)"
          then obtain i where "i < length us" "rendered goto pdf (us ! i)"
            "fst e = artifact valid_host (Suc idx + i) (us ! i)" by (elim exE conjE)
          then have "Suc i < length (u # us) \<and> rendered goto pdf ((u # us) ! Suc i) \<and>
               fst e = artifact valid_host (idx + Suc i) ((u # us) ! Suc i)" by simp
          then show ?thesis by (intro disjI2 exI[of _ "Suc i"])
        qed
      qed
      with d show ?thesis by (rule conjI)
    next
      case True
      then obtain doc where doc: "goto u" "pdf u = Some doc" by (auto simp: rendered_def)
      let ?st2 = "?st1\<lparr>dir := write_file (page_file idx p) doc (dir ?st1),
                         console := console ?st1 @ [OK (path_join OUT_DIR (page_file idx p))]\<rparr>"
      have a: "artifact valid_host idx u = page_file idx p"
        by (simp add: artifact_def Some)
      have "render_loop valid_host goto pdf (Suc idx) us ?st2 = (out, st')"
        using Cons.prems doc Some by (simp add: Let_def)
      from Cons.IH[OF this] have
        d: "distinct (map fst (write_file (page_file idx p) doc (dir st))) \<longrightarrow>
            distinct (map fst (dir st'))" and
        k: "\<forall>e\<in>set (write_file (page_file idx p) doc (dir st)). e \<in> set (dir st') \<or>
            (\<exists>i<length us. rendered goto pdf (us ! i) \<and>
               fst e = artifact valid_host (Suc idx + i) (us ! i))"
        by simp_all
      have d': "distinct (map fst (dir st)) \<longrightarrow> distinct (map fst (dir st'))"
      proof
        assume "distinct (map fst (dir st))"
        then have "distinct (map fst (write_file (page_file idx p) doc (dir st)))"
          by (rule write_file_distinct)
        with d show "distinct (map fst (dir st'))" by (rule mp)
      qed
      have "\<forall>e\<in>set (dir st). e \<in> set (dir st') \<or>
            (\<exists>i<length (u # us). rendered goto pdf ((u # us) ! i) \<and>
               fst e = artifact valid_host (idx + i) ((u # us) ! i))"
      proof
        fix e assume e: "e \<in> set (dir st)"
        show "e \<in> set (dir st') \<or>
            (\<exists>i<length (u # us). rendered goto pdf ((u # us) ! i) \<and>
               fst e = artifact valid_host (idx + i) ((u # us) ! i))"
        proof (cases "fst e = page_file idx p")
          case True
          with a \<open>rendered goto pdf u\<close>
          have "0 < length (u # us) \<and> rendered goto pdf ((u # us) ! 0) \<and>
               fst e = artifact valid_host (idx + 0) ((u # us) ! 0)" by simp
          then show ?thesis by (intro disjI2 exI[of _ 0])
        next
          case False
          with e have "e \<in> set (write_file (page_file idx p) doc (dir st))"
            by (rule write_file_keeps)
          with k have "e \<in> set (dir st') \<or>
            (\<exists>i<length us. rendered goto pdf (us ! i) \<and>
               fst e = artifact valid_host (Suc idx + i) (us ! i))" by (rule bspec)
          then show ?thesis
          proof
            assume "e \<in> set (dir st')" then show ?thesis by (rule disjI1)
          next
            assume "\<exists>i<length us. rendered goto pdf (us ! i) \<and>
               fst e = artifact valid_host (Suc idx + i) (us ! i)"
            then obtain i where "i < length us" "rendered goto pdf (us ! i)"
              "fst e = artifact valid_host (Suc idx + i) (us ! i)" by (elim exE conjE)
            then have "Suc i < length (u # us) \<and> rendered goto pdf ((u # us) ! Suc i) \<and>
               fst e = artifact valid_host (idx + Suc i) ((u # us) ! Suc i)" by simp
            then show ?thesis by (intro disjI2 exI[of _ "Suc i"])
          qed
        qed
      qed
      with d' show ?thesis by (rule conjI)
    qed
  qed
qed
text \<open>
  C6, as stated, fails in its parenthesis: a file whose reader opens and whose second page
  raises has its first page in the final document.
\<close>

theorem merge_pdfs_partial_file_counterexample:
  "\<not> parseable (Readable [Page (1::nat), PageError, Page 3]) \<and>
   merge_pdfs [(''0001 - a.pdf'', Readable [Page (1::nat), PageError, Page 3])] = ([1], 1, 1)"
  by code_simp

text \<open>
  C6, amended. For every directory of per-page PDF files, the merger appends, in the
  order of the sorted file names, what each file yields before its first failure: all the
  pages of a file that is read without failure, no page of a file whose reader cannot be
  opened, and the pages read before the failure of a file that fails part-way. No
  failure aborts the merge. (Three files of 2, 3 and 1 pages give 6 pages in file order;
  with the middle file unreadable they give 3.)
\<close>

theorem merge_pdfs_file_order:
  assumes "distinct (map fst d)"
  shows "merge_pdfs d =
     (concat (map (\<lambda>e. contribution (snd e)) (sort_key fst (filter (\<lambda>e. is_pdf_name (fst e)) d))),
      length (concat (map (\<lambda>e. contribution (snd e))
                (sort_key fst (filter (\<lambda>e. is_pdf_name (fst e)) d)))),
      length (filter (\<lambda>e. is_pdf_name (fst e)) d)) \<and>
     (\<forall>e\<in>set d. parseable (snd e) \<longrightarrow> contribution (snd e) = all_pages (snd e)) \<and>
     (\<forall>e\<in>set d. snd e = Unreadable \<longrightarrow> contribution (snd e) = [])"
proof (intro conjI ballI impI)
  show "merge_pdfs d =
     (concat (map (\<lambda>e. contribution (snd e)) (sort_key fst (filter (\<lambda>e. is_pdf_name (fst e)) d))),
      length (concat (map (\<lambda>e. contribution (snd e))
                (sort_key fst (filter (\<lambda>e. is_pdf_name (fst e)) d)))),
      length (filter (\<lambda>e. is_pdf_name (fst e)) d))"
    using assms by (rule merge_pdfs_sorted)
next
  fix e assume "parseable (snd e)"
  then show "contribution (snd e) = all_pages (snd e)" by (rule contribution_parseable)
next
  fix e :: "string \<times> 'a pdf_file" assume "snd e = Unreadable"
  then show "contribution (snd e) = []" by simp
qed

theorem merge_pdfs_file_order_witness:
  "merge_pdfs [(''0002 - b.pdf'', Readable [Page (3::nat), Page 4, Page 5]),
               (''0003 - c.pdf'', Readable [Page 6]),
               (''0001 - a.pdf'', Readable [Page 1, Page 2])] = ([1, 2, 3, 4, 5, 6], 6, 3) \<and>
   merge_pdfs [(''0002 - b.pdf'', Unreadable),
               (''0003 - c.pdf'', Readable [Page (6::nat)]),
               (''0001 - a.pdf'', Readable [Page 1, Page 2])] = ([1, 2, 6], 3, 3)"
proof -
  let ?d1 = "[(''0002 - b.pdf'', Readable [Page (3::nat), Page 4, Page 5]),
               (''0003 - c.pdf'', Readable [Page 6]),
               (''0001 - a.pdf'', Readable [Page 1, Page 2])]"
  let ?d2 = "[(''0002 - b.pdf'', Unreadable),
               (''0003 - c.pdf'', Readable [Page (6::nat)]),
               (''0001 - a.pdf'', Readable [Page 1, Page 2])]"
  have d1: "distinct (map fst ?d1)" by simp
  have d2: "distinct (map fst ?d2)" by simp
  have e1: "(concat (map (\<lambda>e. contribution (snd e)) (sort_key fst (filter (\<lambda>e. is_pdf_name (fst e)) ?d1))),
      length (concat (map (\<lambda>e. contribution (snd e))
                (sort_key fst (filter (\<lambda>e. is_pdf_name (fst e)) ?d1)))),
      length (filter (\<lambda>e. is_pdf_name (fst e)) ?d1)) = ([1, 2, 3, 4, 5, 6], 6, 3)"
    by code_simp
  have e2: "(concat (map (\<lambda>e. contribution (snd e)) (sort_key fst (filter (\<lambda>e. is_pdf_name (fst e)) ?d2))),
      length (concat (map (\<lambda>e. contribution (snd e))
                (sort_key fst (filter (\<lambda>e. is_pdf_name (fst e)) ?d2)))),
      length (filter (\<lambda>e. is_pdf_name (fst e)) ?d2)) = ([1, 2, 6], 3, 3)"
    by code_simp
  from merge_pdfs_file_order[OF d1, THEN conjunct1] e1
  have r1: "merge_pdfs ?d1 = ([1, 2, 3, 4, 5, 6], 6, 3)" by (rule trans)
  from merge_pdfs_file_order[OF d2, THEN conjunct1] e2
  have r2: "merge_pdfs ?d2 = ([1, 2, 6], 3, 3)" by (rule trans)
  from r1 r2 show ?thesis by (rule conjI)
qed

lemma sum_list_sort_key:
  "sum_list (map g (sort_key k xs)) = sum_list (map g xs)" for g :: "'a \<Rightarrow> nat"
proof -
  have "mset (map g (sort_key k xs)) = mset (map g xs)" by simp
  then show ?thesis by (metis sum_mset_sum_list)
qed

text \<open>
  C10, as stated, fails in its count: with a left-over file that fails at its second page
  and no URL to render, the final document has one page, and the directory holds no
  parseable PDF file.
\<close>

theorem merge_counts_partial_leftover_counterexample:
  "print_to_pdf (\<lambda>h. True) True (\<lambda>u. True) (\<lambda>u. None)
      [(''old.PDF'', Readable [Page (7::nat), PageError])] [] =
     (Done, \<lparr>dir = [(''old.PDF'', Readable [Page 7, PageError])],
             console = [], attempted = [], closed = 1\<rparr>) \<and>
   merge_pdfs [(''old.PDF'', Readable [Page (7::nat), PageError])] = ([7], 1, 1) \<and>
   (\<Sum>e\<leftarrow>filter (\<lambda>e. is_pdf_name (fst e) \<and> parseable (snd e))
          [(''old.PDF'', Readable [Page (7::nat), PageError])]. length (all_pages (snd e))) = 0"
  by code_simp

text \<open>
  C10, amended. The renderer keeps the files that the output directory already holds (it
  replaces only a file that has the name of one of its own artifacts), and the merger
  takes as inputs all the files of the directory whose name ends with \<^verbatim>\<open>.pdf\<close>, compared
  without case, left-over ones included: the page count of the final document is the sum,
  over all these files, of the pages that each yields before its first failure (all its
  pages when it is parseable, none when it cannot be opened).
\<close>

theorem merge_after_render_counts_all_pdf_files:
  assumes "launch_ok" and "\<forall>u\<in>set urls. is_internal u" and "distinct (map fst dir0)"
  shows "\<exists>st pages.
           print_to_pdf valid_host launch_ok goto pdf dir0 urls = (Done, st) \<and>
           fst ` set dir0 \<subseteq> fst ` set (dir st) \<and>
           (\<forall>e\<in>set dir0. e \<in> set (dir st) \<or>
              (\<exists>i<length urls. rendered goto pdf (urls ! i) \<and>
                 fst e = artifact valid_host (1 + i) (urls ! i))) \<and>
           merge_pdfs (dir st) =
             (pages, length pages, length (filter (\<lambda>e. is_pdf_name (fst e)) (dir st))) \<and>
           length pages =
             (\<Sum>e\<leftarrow>filter (\<lambda>e. is_pdf_name (fst e)) (dir st). length (contribution (snd e))) \<and>
           (\<forall>e\<in>set (dir st). parseable (snd e) \<longrightarrow> contribution (snd e) = all_pages (snd e)) \<and>
           (\<forall>e\<in>set (dir st). snd e = Unreadable \<longrightarrow> contribution (snd e) = [])"
proof -
  let ?st0 = "\<lparr>dir = dir0, console = [], attempted = [], closed = 0\<rparr>"
  have ok: "\<forall>u\<in>set urls. url_path valid_host u \<noteq> None"
  proof
    fix u assume "u \<in> set urls"
    with assms(2) have "is_internal u" by (rule bspec)
    then show "url_path valid_host u \<noteq> None" by (rule url_path_internal)
  qed
  from render_loop_batch[OF ok, of goto pdf 1 ?st0]
  obtain st where loop: "render_loop valid_host goto pdf 1 urls ?st0 = (Done, st)"
    and names0: "fst ` set (dir ?st0) \<subseteq> fst ` set (dir st)"
    by (elim exE conjE)
  from names0 have names: "fst ` set dir0 \<subseteq> fst ` set (dir st)" by simp
  from loop assms(1) have run: "print_to_pdf valid_host launch_ok goto pdf dir0 urls = (Done, st)"
    by (simp add: print_to_pdf_def)
  from render_loop_dir[OF loop] assms(3)
  have dist: "distinct (map fst (dir st))"
    and keep: "\<forall>e\<in>set dir0. e \<in> set (dir st) \<or>
              (\<exists>i<length urls. rendered goto pdf (urls ! i) \<and>
                 fst e = artifact valid_host (1 + i) (urls ! i))"
    by simp_all
  let ?T = "sort_key fst (filter (\<lambda>e. is_pdf_name (fst e)) (dir st))"
  let ?pages = "concat (map (\<lambda>e. contribution (snd e)) ?T)"
  have m: "merge_pdfs (dir st) =
     (?pages, length ?pages, length (filter (\<lambda>e. is_pdf_name (fst e)) (dir st)))"
    using dist by (rule merge_pdfs_sorted)
  have "length ?pages = sum_list (map (\<lambda>e. length (contribution (snd e))) ?T)"
    by (simp add: length_concat comp_def)
  also have "\<dots> = (\<Sum>e\<leftarrow>filter (\<lambda>e. is_pdf_name (fst e)) (dir st). length (contribution (snd e)))"
    by (rule sum_list_sort_key)
  finally have cnt: "length ?pages =
     (\<Sum>e\<leftarrow>filter (\<lambda>e. is_pdf_name (fst e)) (dir st). length (contribution (snd e)))" .
  have p: "\<forall>e\<in>set (dir st). parseable (snd e) \<longrightarrow> contribution (snd e) = all_pages (snd e)"
    using contribution_parseable by blast
  have u: "\<forall>e\<in>set (dir st). snd e = Unreadable \<longrightarrow> contribution (snd e) = []"
    by simp
  show ?thesis
    by (rule exI[of _ st], rule exI[of _ ?pages]) (intro conjI run names keep m cnt p u)
qed

theorem merge_after_render_counts_all_pdf_files_witness:
  "\<exists>st. print_to_pdf (\<lambda>h. True) True (\<lambda>u. True) (\<lambda>u. Some (Readable [Page u, Page u]))
          [(''0001 - old.PDF'', Readable [Page ''left over'']), (''notes.txt'', Unreadable)]
          [''https://engsoftmoderna.info/cap1.html''] = (Done, st) \<and>
        dir st = [(''0001 - old.PDF'', Readable [Page ''left over'']), (''notes.txt'', Unreadable),
                  (''0001 - cap1.html.pdf'', Readable [Page ''https://engsoftmoderna.info/cap1.html'',
                                                      Page ''https://engsoftmoderna.info/cap1.html''])] \<and>
        merge_pdfs (dir st) =
          ([''https://engsoftmoderna.info/cap1.html'', ''https://engsoftmoderna.info/cap1.html'',
            ''left over''], 3, 2)"
proof -
  let ?urls = "[''https://engsoftmoderna.info/cap1.html'']"
  let ?dir0 = "[(''0001 - old.PDF'', Readable [Page ''left over'']), (''notes.txt'', Unreadable)]"
  let ?pdf = "\<lambda>u. Some (Readable [Page u, Page u])"
  let ?dir1 = "[(''0001 - old.PDF'', Readable [Page ''left over'']), (''notes.txt'', Unreadable),
                  (''0001 - cap1.html.pdf'', Readable [Page ''https://engsoftmoderna.info/cap1.html'',
                                                      Page ''https://engsoftmoderna.info/cap1.html''])]"
  have h: "\<forall>u\<in>set ?urls. is_internal u" by code_simp
  have d: "distinct (map fst ?dir0)" by simp
  from merge_after_render_counts_all_pdf_files[OF TrueI h d, of "\<lambda>h. True" "\<lambda>u. True" ?pdf]
  obtain st where st: "print_to_pdf (\<lambda>h. True) True (\<lambda>u. True) ?pdf ?dir0 ?urls = (Done, st)"
    by (elim exE conjE)
  have "print_to_pdf (\<lambda>h. True) True (\<lambda>u. True) ?pdf ?dir0 ?urls =
     (Done, \<lparr>dir = ?dir1,
             console = [OK ''esm_pdf_pages/0001 - cap1.html.pdf''],
             attempted = ?urls, closed = 1\<rparr>)"
    by code_simp
  with st[symmetric] have "(Done, st) =
     (Done, \<lparr>dir = ?dir1,
             console = [OK ''esm_pdf_pages/0001 - cap1.html.pdf''],
             attempted = ?urls, closed = 1\<rparr>)"
    by (rule trans)
  then have "st = \<lparr>dir = ?dir1,
             console = [OK ''esm_pdf_pages/0001 - cap1.html.pdf''],
             attempted = ?urls, closed = 1\<rparr>"
    by (simp only: prod.inject)
  then have dir: "dir st = ?dir1" by simp
  have "merge_pdfs ?dir1 =
          ([''https://engsoftmoderna.info/cap1.html'', ''https://engsoftmoderna.info/cap1.html'',
            ''left over''], 3, 2)"
    by code_simp
  with st dir show ?thesis by (intro exI[of _ st]) simp
qed

subsection \<open>URL normalizer: proofs\<close>

lemma lower_char_idem: "lower_char (lower_char c) = lower_char c"
proof (cases "(65 \<le> (of_char c :: nat) \<and> (of_char c :: nat) \<le> 90) \<or>
              (192 \<le> (of_char c :: nat) \<and> (of_char c :: nat) \<le> 222 \<and> (of_char c :: nat) \<noteq> 215)")
  case False
  then have "lower_char c = c" unfolding lower_char_def Let_def by (rule if_not_P)
  then show ?thesis by simp
next
  case True
  then have l: "lower_char c = char_of ((of_char c :: nat) + 32)"
    by (auto simp: lower_char_def Let_def)
  have "(of_char c :: nat) + 32 < 256" using True by auto
  then have code: "(of_char (char_of ((of_char c :: nat) + 32)) :: nat) = of_char c + 32"
    by (simp add: of_char_of)
  have "\<not> ((65 \<le> (of_char c :: nat) + 32 \<and> (of_char c :: nat) + 32 \<le> 90) \<or>
          (192 \<le> (of_char c :: nat) + 32 \<and> (of_char c :: nat) + 32 \<le> 222 \<and>
           (of_char c :: nat) + 32 \<noteq> 215))"
    using True by auto
  then have "lower_char (char_of ((of_char c :: nat) + 32)) = char_of ((of_char c :: nat) + 32)"
    unfolding lower_char_def Let_def code by simp
  with l show ?thesis by simp
qed

lemma str_lower_idem: "str_lower (str_lower s) = str_lower s"
  by (simp add: str_lower_def lower_char_idem)

lemma takeWhile_dropWhile_split:
  "c \<in> set xs \<Longrightarrow> xs = takeWhile (\<lambda>x. x \<noteq> c) xs @ c # drop 1 (dropWhile (\<lambda>x. x \<noteq> c) xs)"
  by (induction xs) auto

text \<open>What the stages of \<^verbatim>\<open>urlsplit\<close> return.\<close>

lemma split_scheme_cases:
  assumes "split_scheme url1 s1 = (sch, url2)"
  shows "(sch = s1 \<and> url2 = url1) \<or>
         (\<exists>pre. pre \<noteq> [] \<and> (\<forall>c\<in>set pre. c \<in> set scheme_chars \<and> c \<noteq> CHR '':'') \<and>
                sch = str_lower pre \<and> url1 = pre @ CHR '':'' # url2)"
proof (cases "CHR '':'' \<in> set url1 \<and> takeWhile (\<lambda>c. c \<noteq> CHR '':'') url1 \<noteq> [] \<and> ascii_alpha (hd url1) \<and>
            (\<forall>c\<in>set (takeWhile (\<lambda>c. c \<noteq> CHR '':'') url1). c \<in> set scheme_chars)")
  case False
  with assms have "sch = s1 \<and> url2 = url1"
    by (simp add: split_scheme_def Let_def)
  then show ?thesis by (rule disjI1)
next
  case True
  let ?pre = "takeWhile (\<lambda>c. c \<noteq> CHR '':'') url1"
  from True assms have r: "sch = str_lower ?pre" "url2 = drop 1 (dropWhile (\<lambda>c. c \<noteq> CHR '':'') url1)"
    by (simp_all add: split_scheme_def Let_def split1_def)
  have "url1 = ?pre @ CHR '':'' # url2"
    unfolding r(2) using True by (intro takeWhile_dropWhile_split) simp
  moreover have "\<forall>c\<in>set ?pre. c \<in> set scheme_chars \<and> c \<noteq> CHR '':''"
  proof
    fix c assume c: "c \<in> set ?pre"
    then have "c \<noteq> CHR '':''" by (rule set_takeWhileD[THEN conjunct2])
    with True c show "c \<in> set scheme_chars \<and> c \<noteq> CHR '':''" by simp
  qed
  moreover have "?pre \<noteq> []" using True by simp
  ultimately have "?pre \<noteq> [] \<and> (\<forall>c\<in>set ?pre. c \<in> set scheme_chars \<and> c \<noteq> CHR '':'') \<and>
                sch = str_lower ?pre \<and> url1 = ?pre @ CHR '':'' # url2"
    using r(1) by simp
  then show ?thesis by (intro disjI2 exI[of _ ?pre])
qed

lemma split_netloc_cases:
  assumes "split_netloc valid_host url2 = Some (nl, url3)"
  shows "(take 2 url2 \<noteq> ''//'' \<and> nl = [] \<and> url3 = url2) \<or>
         (url2 = ''//'' @ nl @ url3 \<and> (\<forall>c\<in>set nl. \<not> netloc_delim c) \<and>
          (url3 = [] \<or> netloc_delim (hd url3)) \<and> brackets_ok valid_host nl)"
proof (cases "take 2 url2 = ''//''")
  case False
  with assms show ?thesis by (simp add: split_netloc_def)
next
  case True
  with assms have b: "brackets_ok valid_host (fst (splitnetloc url2))"
    and s: "splitnetloc url2 = (nl, url3)"
    by (simp_all add: split_netloc_def split: if_splits)
  from s have nl: "nl = takeWhile (\<lambda>c. \<not> netloc_delim c) (drop 2 url2)"
    and u3: "url3 = dropWhile (\<lambda>c. \<not> netloc_delim c) (drop 2 url2)"
    by (simp_all add: splitnetloc_def)
  have "take 2 url2 @ drop 2 url2 = url2" by (rule append_take_drop_id)
  then have "url2 = ''//'' @ drop 2 url2" unfolding True by (rule sym)
  also have "drop 2 url2 = nl @ url3" unfolding nl u3 by simp
  finally have 1: "url2 = ''//'' @ nl @ url3" .
  have 2: "\<forall>c\<in>set nl. \<not> netloc_delim c"
    unfolding nl by (auto dest: set_takeWhileD)
  have 3: "url3 = [] \<or> netloc_delim (hd url3)"
    unfolding u3 using hd_dropWhile[of "\<lambda>c. \<not> netloc_delim c" "drop 2 url2"] by auto
  from b s have 4: "brackets_ok valid_host nl" by simp
  from 1 2 3 4 have "url2 = ''//'' @ nl @ url3 \<and> (\<forall>c\<in>set nl. \<not> netloc_delim c) \<and>
          (url3 = [] \<or> netloc_delim (hd url3)) \<and> brackets_ok valid_host nl"
    by (intro conjI)
  then show ?thesis by (rule disjI2)
qed

lemma split_query_fragment_props:
  assumes "split_query_fragment url3 = (p, q, f)"
  shows "\<exists>t. url3 = p @ t \<and> (t = [] \<or> hd t = CHR ''?'' \<or> hd t = CHR ''#'')"
    and "CHR ''#'' \<notin> set p" and "CHR ''?'' \<notin> set p"
proof -
  from assms have p: "p = takeWhile (\<lambda>c. c \<noteq> CHR ''?'') (takeWhile (\<lambda>c. c \<noteq> CHR ''#'') url3)"
    by (simp add: split_query_fragment_eq)
  let ?a = "takeWhile (\<lambda>c. c \<noteq> CHR ''#'') url3"
  let ?t = "dropWhile (\<lambda>c. c \<noteq> CHR ''?'') ?a @ dropWhile (\<lambda>c. c \<noteq> CHR ''#'') url3"
  have "url3 = ?a @ dropWhile (\<lambda>c. c \<noteq> CHR ''#'') url3" by simp
  also have "?a = p @ dropWhile (\<lambda>c. c \<noteq> CHR ''?'') ?a" unfolding p by simp
  finally have 1: "url3 = p @ ?t" by simp
  have 2: "?t = [] \<or> hd ?t = CHR ''?'' \<or> hd ?t = CHR ''#''"
  proof (cases "dropWhile (\<lambda>c. c \<noteq> CHR ''?'') ?a")
    case Nil
    note n1 = Nil
    show ?thesis
    proof (cases "dropWhile (\<lambda>c. c \<noteq> CHR ''#'') url3")
      case Nil
      with n1 show ?thesis by simp
    next
      case (Cons c cs)
      with hd_dropWhile[of "\<lambda>c. c \<noteq> CHR ''#''" url3] have "c = CHR ''#''" by simp
      with Cons have "hd (dropWhile (\<lambda>c. c \<noteq> CHR ''#'') url3) = CHR ''#''" by simp
      then show ?thesis unfolding n1 by simp
    qed
  next
    case (Cons c cs)
    with hd_dropWhile[of "\<lambda>c. c \<noteq> CHR ''?''" ?a] have "c = CHR ''?''" by simp
    with Cons show ?thesis by simp
  qed
  from 1 2 show "\<exists>t. url3 = p @ t \<and> (t = [] \<or> hd t = CHR ''?'' \<or> hd t = CHR ''#'')"
    by (intro exI[of _ ?t] conjI)
  show "CHR ''#'' \<notin> set p"
    unfolding p by (auto dest!: set_takeWhileD)
  show "CHR ''?'' \<notin> set p"
    unfolding p by (auto dest: set_takeWhileD)
qed

lemma urlsplit_stages:
  assumes "urlsplit valid_host x s0 = Some (sch, nl, p, q, f)"
  obtains url2 url3 where
    "split_scheme (filter (\<lambda>c. \<not> unsafe_byte c) (dropWhile c0_control_or_space x))
       (filter (\<lambda>c. \<not> unsafe_byte c)
          (rev (dropWhile c0_control_or_space (rev (dropWhile c0_control_or_space s0))))) = (sch, url2)"
    and "split_netloc valid_host url2 = Some (nl, url3)"
    and "split_query_fragment url3 = (p, q, f)"
proof -
  let ?su = "split_scheme (filter (\<lambda>c. \<not> unsafe_byte c) (dropWhile c0_control_or_space x))
       (filter (\<lambda>c. \<not> unsafe_byte c)
          (rev (dropWhile c0_control_or_space (rev (dropWhile c0_control_or_space s0)))))"
  from assms obtain nl' url3 where n: "split_netloc valid_host (snd ?su) = Some (nl', url3)"
    by (auto simp: urlsplit_def Let_def split: option.splits)
  with assms have e: "(fst ?su, nl', split_query_fragment url3) = (sch, nl, p, q, f)"
    by (auto simp: urlsplit_def Let_def split: prod.splits)
  then have "?su = (sch, snd ?su)" "split_netloc valid_host (snd ?su) = Some (nl, url3)"
    "split_query_fragment url3 = (p, q, f)"
    using n by (simp_all add: prod_eq_iff)
  then show thesis by (rule that)
qed

text \<open>
  Putting the two halves of \<^verbatim>\<open>_splitparams\<close> together again, as \<^verbatim>\<open>urlunparse\<close> does, gives a
  path that splits into the same halves.
\<close>

lemma last_segment:
  assumes "CHR ''/'' \<in> set p"
  obtains front lastseg where "p = front @ lastseg" and "CHR ''/'' \<notin> set lastseg"
    and "front \<noteq> []" and "last front = CHR ''/''"
    and "front = rev (dropWhile (\<lambda>c. c \<noteq> CHR ''/'') (rev p))"
    and "lastseg = rev (takeWhile (\<lambda>c. c \<noteq> CHR ''/'') (rev p))"
proof -
  let ?d = "dropWhile (\<lambda>c. c \<noteq> CHR ''/'') (rev p)"
  let ?t = "takeWhile (\<lambda>c. c \<noteq> CHR ''/'') (rev p)"
  have "rev (rev p) = rev (?t @ ?d)" by (simp only: takeWhile_dropWhile_id)
  then have 1: "p = rev ?d @ rev ?t" by (simp only: rev_rev_ident rev_append)
  have 2: "CHR ''/'' \<notin> set (rev ?t)" by (auto dest: set_takeWhileD)
  have ne: "?d \<noteq> []" using assms by (simp add: dropWhile_eq_Nil_conv)
  then have "hd ?d = CHR ''/''" using hd_dropWhile[of "\<lambda>c. c \<noteq> CHR ''/''" "rev p"] by simp
  then have 4: "last (rev ?d) = CHR ''/''" using ne by (simp add: last_rev)
  from ne have 3: "rev ?d \<noteq> []" by simp
  show thesis using 1 2 3 4 by (rule that) simp_all
qed

lemma last_segment_unique:
  assumes "front \<noteq> []" "last front = CHR ''/''" "CHR ''/'' \<notin> set seg"
  shows "rev (dropWhile (\<lambda>c. c \<noteq> CHR ''/'') (rev (front @ seg))) = front"
    and "rev (takeWhile (\<lambda>c. c \<noteq> CHR ''/'') (rev (front @ seg))) = seg"
proof -
  have a: "\<forall>x\<in>set (rev seg). x \<noteq> CHR ''/''" using assms(3) by auto
  have b: "rev front = [] \<or> \<not> (hd (rev front) \<noteq> CHR ''/'')"
    using assms(1,2) by (simp add: hd_rev)
  have "dropWhile (\<lambda>c. c \<noteq> CHR ''/'') (rev seg @ rev front) = rev front"
    unfolding dropWhile_all[OF a]
    using dropWhile_delim_head[of "rev front" "\<lambda>c. c \<noteq> CHR ''/''", OF b] by simp
  then show "rev (dropWhile (\<lambda>c. c \<noteq> CHR ''/'') (rev (front @ seg))) = front" by simp
  have "takeWhile (\<lambda>c. c \<noteq> CHR ''/'') (rev seg @ rev front) = rev seg"
    unfolding takeWhile_all[OF a]
    using takeWhile_delim_head[of "rev front" "\<lambda>c. c \<noteq> CHR ''/''", OF b] by simp
  then show "rev (takeWhile (\<lambda>c. c \<noteq> CHR ''/'') (rev (front @ seg))) = seg" by simp
qed

lemma splitparams_rejoin:
  assumes "(if CHR '';'' \<in> set p then splitparams p else (p, [])) = (a, b)"
  shows "(if CHR '';'' \<in> set (if b \<noteq> [] then a @ '';'' @ b else a)
          then splitparams (if b \<noteq> [] then a @ '';'' @ b else a)
          else (if b \<noteq> [] then a @ '';'' @ b else a, [])) = (a, b)"
    and "p = a @ '';'' @ b \<or> (b = [] \<and> p = a)"
proof -
  let ?pth = "if b \<noteq> [] then a @ '';'' @ b else a"
  let ?goal = "(if CHR '';'' \<in> set ?pth then splitparams ?pth else (?pth, [])) = (a, b)"
  have "?goal \<and> (p = a @ '';'' @ b \<or> (b = [] \<and> p = a))"
  proof (cases "CHR '';'' \<in> set p")
    case False
    with assms have "a = p" "b = []" by simp_all
    with False show ?thesis by simp
  next
    case semi: True
    with assms have sp: "splitparams p = (a, b)" by simp
    show ?thesis
    proof (cases "CHR ''/'' \<in> set p")
      case False
      with sp semi have ab: "a = takeWhile (\<lambda>c. c \<noteq> CHR '';'') p"
        "b = drop 1 (dropWhile (\<lambda>c. c \<noteq> CHR '';'') p)"
        by (simp_all add: splitparams_def split1_def)
      have p: "p = a @ CHR '';'' # b"
        unfolding ab using semi by (rule takeWhile_dropWhile_split)
      have na: "CHR '';'' \<notin> set a" unfolding ab(1) by (auto dest: set_takeWhileD)
      show ?thesis
      proof (cases "b = []")
        case True
        with na p show ?thesis by simp
      next
        case False
        then have "?pth = p" using p by simp
        with semi sp p show ?thesis by simp
      qed
    next
      case slash: True
      then obtain front lastseg where
        d: "p = front @ lastseg" "CHR ''/'' \<notin> set lastseg" "front \<noteq> []" "last front = CHR ''/''"
          "front = rev (dropWhile (\<lambda>c. c \<noteq> CHR ''/'') (rev p))"
          "lastseg = rev (takeWhile (\<lambda>c. c \<noteq> CHR ''/'') (rev p))"
        by (rule last_segment)
      show ?thesis
      proof (cases "CHR '';'' \<in> set lastseg")
        case False
        with sp slash d(6) have "a = p" "b = []"
          by (simp_all add: splitparams_def Let_def)
        with semi sp show ?thesis by simp
      next
        case True
        with sp slash d(5,6) have ab: "a = front @ takeWhile (\<lambda>c. c \<noteq> CHR '';'') lastseg"
          "b = drop 1 (dropWhile (\<lambda>c. c \<noteq> CHR '';'') lastseg)"
          by (simp_all add: splitparams_def Let_def split1_def)
        let ?l1 = "takeWhile (\<lambda>c. c \<noteq> CHR '';'') lastseg"
        have l: "lastseg = ?l1 @ CHR '';'' # b"
          unfolding ab(2) using True by (rule takeWhile_dropWhile_split)
        have p: "p = a @ CHR '';'' # b"
          unfolding ab(1) using d(1) l by simp
        show ?thesis
        proof (cases "b = []")
          case False
          then have "?pth = p" using p by simp
          with semi sp p show ?thesis by simp
        next
          case b: True
          have n1: "CHR ''/'' \<notin> set ?l1" using d(2) by (auto dest: set_takeWhileD)
          have n2: "CHR '';'' \<notin> set ?l1" by (auto dest: set_takeWhileD)
          have sl: "CHR ''/'' \<in> set a"
            unfolding ab(1) using d(3,4) last_in_set[of front] by auto
          have "splitparams a = (a, [])"
            using sl n2 unfolding ab(1)
            by (simp add: splitparams_def Let_def last_segment_unique[OF d(3,4) n1]
                del: rev_append)
          with b p show ?thesis by simp
        qed
      qed
    qed
  qed
  then show ?goal and "p = a @ '';'' @ b \<or> (b = [] \<and> p = a)" by simp_all
qed

lemma urlparse_stages:
  assumes "urlparse valid_host x s0 = Some u"
  obtains p where "urlsplit valid_host x s0 = Some (scheme u, netloc u, p, query u, fragment u)"
    and "(if scheme u \<in> set uses_params \<and> CHR '';'' \<in> set p then splitparams p else (p, [])) =
         (path u, params u)"
proof -
  from assms obtain sch nl p q f where s: "urlsplit valid_host x s0 = Some (sch, nl, p, q, f)"
    by (auto simp: urlparse_def split: option.splits)
  with assms have u: "u = \<lparr>scheme = sch, netloc = nl,
      path = fst (if sch \<in> set uses_params \<and> CHR '';'' \<in> set p then splitparams p else (p, [])),
      params = snd (if sch \<in> set uses_params \<and> CHR '';'' \<in> set p then splitparams p else (p, [])),
      query = q, fragment = f\<rparr>"
    by (simp add: urlparse_def Let_def)
  have 1: "urlsplit valid_host x s0 = Some (scheme u, netloc u, p, query u, fragment u)"
    unfolding u using s by simp
  have 2: "(if scheme u \<in> set uses_params \<and> CHR '';'' \<in> set p then splitparams p else (p, [])) =
         (path u, params u)"
    unfolding u by simp
  from 1 2 show thesis by (rule that)
qed

lemma append_stop_char:
  assumes "xs @ c # ys = xs' @ c # ys'" and "c \<notin> set xs" and "c \<notin> set xs'"
  shows "xs = xs'" and "ys = ys'"
proof -
  have t: "takeWhile (\<lambda>x. x \<noteq> c) (zs @ c # ws) = zs" if "c \<notin> set zs" for zs ws
    using that by (induction zs) auto
  have "takeWhile (\<lambda>x. x \<noteq> c) (xs @ c # ys) = takeWhile (\<lambda>x. x \<noteq> c) (xs' @ c # ys')"
    using assms(1) by (rule arg_cong)
  then show "xs = xs'" using t[OF assms(2)] t[OF assms(3)] by simp
  with assms(1) show "ys = ys'" by simp
qed

lemma append_stop_pred:
  assumes "xs @ ys = xs' @ ys'"
    and "\<forall>x\<in>set xs. P x" and "\<forall>x\<in>set xs'. P x"
    and "ys = [] \<or> \<not> P (hd ys)" and "ys' = [] \<or> \<not> P (hd ys')"
  shows "xs = xs'" and "ys = ys'"
proof -
  have "takeWhile P (xs @ ys) = takeWhile P (xs' @ ys')"
    using assms(1) by (rule arg_cong)
  then show "xs = xs'"
    unfolding takeWhile_all[OF assms(2)] takeWhile_all[OF assms(3)]
      takeWhile_delim_head[of ys P, OF assms(4)] takeWhile_delim_head[of ys' P, OF assms(5)]
    by simp
  with assms(1) show "ys = ys'" by simp
qed

lemma str_lower_https: "str_lower ''https'' = ''https''"
  by (simp add: str_lower_def lower_char_def)

lemma https_uses: "''https'' \<in> set uses_netloc" "''https'' \<in> set uses_params"
  "''https'' \<in> set uses_relative"
  by (simp_all add: uses_netloc_def uses_params_def uses_relative_def)

text \<open>
  The rebuilt string of a parsed URL, without query and fragment, for the two cases of
  the scheme.
\<close>

lemma cleared_fields:
  "scheme (u\<lparr>fragment := [], query := []\<rparr>) = scheme u"
  "netloc (u\<lparr>fragment := [], query := []\<rparr>) = netloc u"
  "path (u\<lparr>fragment := [], query := []\<rparr>) = path u"
  "params (u\<lparr>fragment := [], query := []\<rparr>) = params u"
  "query (u\<lparr>fragment := [], query := []\<rparr>) = []"
  "fragment (u\<lparr>fragment := [], query := []\<rparr>) = []"
  by simp_all

lemma urlunparse_cleared:
  "urlunparse (u\<lparr>fragment := [], query := []\<rparr>) =
     (let pth = (if params u \<noteq> [] then path u @ '';'' @ params u else path u);
          X = (if netloc u \<noteq> [] \<or> (scheme u \<noteq> [] \<and> scheme u \<in> set uses_netloc) \<or> take 2 pth = ''//''
               then ''//'' @ netloc u @ (if pth \<noteq> [] \<and> take 1 pth \<noteq> ''/'' then ''/'' @ pth else pth)
               else pth)
      in if scheme u \<noteq> [] then scheme u @ '':'' @ X else X)"
  by (simp only: urlunparse_def urlunsplit_def Let_def cleared_fields simp_thms if_False)

text \<open>
  A parsed URL whose rebuilt string passes \<^verbatim>\<open>is_internal\<close> has the scheme \<^verbatim>\<open>https\<close> and the
  host of the site, and the rebuilt string is the origin followed by the path.
\<close>

lemma internal_normal_form:
  assumes up: "urlparse valid_host x [] = Some u"
    and int: "is_internal (urlunparse (u\<lparr>fragment := [], query := []\<rparr>))"
  obtains pth where "scheme u = ''https''"
    and "str_lower (netloc u) = ''engsoftmoderna.info''"
    and "\<forall>c\<in>set (netloc u). ascii_alpha c \<or> c = CHR ''.''"
    and "pth = (if params u \<noteq> [] then path u @ '';'' @ params u else path u)"
    and "urlunparse (u\<lparr>fragment := [], query := []\<rparr>) = ''https'' @ ''://'' @ netloc u @ pth"
    and "pth = [] \<or> hd pth = CHR ''/''"
    and "\<forall>c\<in>set pth. \<not> unsafe_byte c \<and> c \<noteq> CHR ''#'' \<and> c \<noteq> CHR ''?''"
    and "(if CHR '';'' \<in> set pth then splitparams pth else (pth, [])) = (path u, params u)"
proof -
  define out where "out = urlunparse (u\<lparr>fragment := [], query := []\<rparr>)"
  define pth where "pth = (if params u \<noteq> [] then path u @ '';'' @ params u else path u)"
  define pth' where "pth' = (if pth \<noteq> [] \<and> take 1 pth \<noteq> ''/'' then ''/'' @ pth else pth)"
  define X where "X = (if netloc u \<noteq> [] \<or> (scheme u \<noteq> [] \<and> scheme u \<in> set uses_netloc) \<or> take 2 pth = ''//''
               then ''//'' @ netloc u @ pth' else pth)"
  define url1 where "url1 = filter (\<lambda>c. \<not> unsafe_byte c) (dropWhile c0_control_or_space x)"
  have "out = (if scheme u \<noteq> [] then scheme u @ '':'' @ X else X)"
    unfolding out_def X_def pth'_def pth_def urlunparse_cleared Let_def ..
  then have out: "out = (if scheme u \<noteq> [] then scheme u @ CHR '':'' # X else X)"
    by simp
  from up obtain p where
    us: "urlsplit valid_host x [] = Some (scheme u, netloc u, p, query u, fragment u)"
    and pp: "(if scheme u \<in> set uses_params \<and> CHR '';'' \<in> set p then splitparams p else (p, [])) =
         (path u, params u)"
    by (rule urlparse_stages)
  from us obtain url2 url3 where
    ss0: "split_scheme (filter (\<lambda>c. \<not> unsafe_byte c) (dropWhile c0_control_or_space x))
       (filter (\<lambda>c. \<not> unsafe_byte c)
          (rev (dropWhile c0_control_or_space (rev (dropWhile c0_control_or_space [])))))
        = (scheme u, url2)"
    and sn: "split_netloc valid_host url2 = Some (netloc u, url3)"
    and sq: "split_query_fragment url3 = (p, query u, fragment u)"
    by (rule urlsplit_stages)
  from ss0 have ss: "split_scheme url1 [] = (scheme u, url2)"
    unfolding url1_def by simp
  have clean1: "\<forall>c\<in>set url1. \<not> unsafe_byte c" unfolding url1_def by simp
  from split_query_fragment_props[OF sq] obtain t where
    u3: "url3 = p @ t" and pq: "CHR ''#'' \<notin> set p" "CHR ''?'' \<notin> set p"
    by blast
  have rel: "p = pth \<or> p = pth @ '';''"
  proof (cases "scheme u \<in> set uses_params")
    case True
    with pp have "(if CHR '';'' \<in> set p then splitparams p else (p, [])) = (path u, params u)"
      by simp
    from splitparams_rejoin(2)[OF this]
    have "p = path u @ '';'' @ params u \<or> (params u = [] \<and> p = path u)" .
    then show ?thesis unfolding pth_def by auto
  next
    case False
    with pp have "path u = p" "params u = []" by simp_all
    then show ?thesis unfolding pth_def by simp
  qed
  from int have "is_internal out" unfolding out_def .
  then obtain S H R where
    d: "out = S @ ''://'' @ H @ R" "str_lower S = ''https''"
      "str_lower H = ''engsoftmoderna.info''" "length S = 5" "length H = 19"
      "\<forall>c\<in>set S. ascii_alpha c" "\<forall>c\<in>set H. ascii_alpha c \<or> c = CHR ''.''"
      "at_end R \<or> (take 1 R = ''/'' \<and> at_end (dropWhile (\<lambda>c. c \<noteq> CHR 0x0A) (drop 1 R)))"
    by (rule is_internal_decomp)
  from d(4) obtain s S' where Sc: "S = s # S'" by (cases S) auto
  have s: "ascii_alpha s" using d(6) Sc by simp
  have Sne: "S \<noteq> []" using Sc by simp
  have d1: "out = S @ CHR '':'' # (''//'' @ H @ R)" unfolding d(1) by simp
  have hd_out: "hd out = s" unfolding d1 Sc by simp
  text \<open>The scheme is not empty.\<close>
  have sch_ne: "scheme u \<noteq> []"
  proof
    assume e: "scheme u = []"
    with out have oX: "out = X" by simp
    have noslash: "\<not> (netloc u \<noteq> [] \<or> take 2 pth = ''//'')"
    proof
      assume "netloc u \<noteq> [] \<or> take 2 pth = ''//''"
      then have "X = ''//'' @ netloc u @ pth'" unfolding X_def by auto
      then have "hd out = CHR ''/''" unfolding oX by simp
      with hd_out ascii_alpha_facts(10)[OF s] show False by simp
    qed
    then have nl: "netloc u = []" and op: "out = pth" unfolding oX X_def using e by simp_all
    have "\<exists>t'. p = pth @ t'"
      using rel
    proof
      assume "p = pth"
      then have "p = pth @ []" by simp
      then show ?thesis ..
    next
      assume "p = pth @ '';''"
      then show ?thesis ..
    qed
    then obtain t' where "p = pth @ t'" ..
    then have u3': "url3 = S @ CHR '':'' # (''//'' @ H @ R @ t' @ t)"
      unfolding u3 op[symmetric] d1 by simp
    have hd3: "url3 \<noteq> []" "hd url3 = s" unfolding u3' Sc by simp_all
    from split_netloc_cases[OF sn] have "url3 = url2"
    proof
      assume "take 2 url2 \<noteq> ''//'' \<and> netloc u = [] \<and> url3 = url2"
      then show ?thesis by simp
    next
      assume "url2 = ''//'' @ netloc u @ url3 \<and> (\<forall>c\<in>set (netloc u). \<not> netloc_delim c) \<and>
          (url3 = [] \<or> netloc_delim (hd url3)) \<and> brackets_ok valid_host (netloc u)"
      then have "url3 = [] \<or> netloc_delim (hd url3)" by simp
      with hd3 ascii_alpha_facts(5)[OF s] show ?thesis by simp
    qed
    moreover from split_scheme_cases[OF ss] have "url2 = url1"
    proof
      assume "scheme u = [] \<and> url2 = url1"
      then show ?thesis by simp
    next
      assume "\<exists>pre. pre \<noteq> [] \<and> (\<forall>c\<in>set pre. c \<in> set scheme_chars \<and> c \<noteq> CHR '':'') \<and>
                scheme u = str_lower pre \<and> url1 = pre @ CHR '':'' # url2"
      then obtain pre where "pre \<noteq> []" "scheme u = str_lower pre" by (elim exE conjE)
      with e show ?thesis by (simp add: str_lower_def)
    qed
    ultimately have "url1 = S @ CHR '':'' # (''//'' @ H @ R @ t' @ t)" using u3' by simp
    then have "split_scheme url1 [] = (str_lower S, ''//'' @ H @ R @ t' @ t)"
      using split_scheme_found[OF Sne d(6)] by simp
    with ss have "scheme u = str_lower S" by simp
    with e d(2) show False by simp
  qed
  text \<open>It is \<^verbatim>\<open>https\<close>.\<close>
  from split_scheme_cases[OF ss] sch_ne obtain pre where
    pre: "pre \<noteq> []" "\<forall>c\<in>set pre. c \<in> set scheme_chars \<and> c \<noteq> CHR '':''"
      "scheme u = str_lower pre" "url1 = pre @ CHR '':'' # url2"
    by (elim disjE exE conjE) simp_all
  have colon: "CHR '':'' \<notin> set (scheme u)"
  proof
    assume "CHR '':'' \<in> set (scheme u)"
    then obtain c where c: "c \<in> set pre" "lower_char c = CHR '':''"
      unfolding pre(3) str_lower_def by auto
    from lower_char_symbol[OF c(2)] have "c = CHR '':''" by simp
    with pre(2) c(1) show False by auto
  qed
  have colonS: "CHR '':'' \<notin> set S" using d(6) ascii_alpha_facts(3) by blast
  from out sch_ne have o2: "scheme u @ CHR '':'' # X = S @ CHR '':'' # (''//'' @ H @ R)"
    unfolding d1[symmetric] by simp
  from append_stop_char[OF o2 colon colonS]
  have schS: "scheme u = S" and XH: "X = ''//'' @ H @ R" .
  have "str_lower (scheme u) = scheme u" unfolding pre(3) by (rule str_lower_idem)
  then have https: "scheme u = ''https''" using d(2) schS by simp
  text \<open>The host.\<close>
  have X2: "X = ''//'' @ netloc u @ pth'" unfolding X_def using https https_uses(1) by simp
  with XH have e2: "netloc u @ pth' = H @ R" by simp
  have clean2: "\<forall>c\<in>set url2. \<not> unsafe_byte c" using clean1 unfolding pre(4) by simp
  have nlc: "\<forall>c\<in>set (netloc u). c \<noteq> CHR ''/'' \<and> c \<noteq> CHR 0x0A"
    and tail3: "netloc u \<noteq> [] \<longrightarrow> url3 = [] \<or> netloc_delim (hd url3)"
    and clean3: "\<forall>c\<in>set url3. \<not> unsafe_byte c"
  proof -
    from split_netloc_cases[OF sn]
    have "(\<forall>c\<in>set (netloc u). c \<noteq> CHR ''/'' \<and> c \<noteq> CHR 0x0A) \<and>
          (netloc u \<noteq> [] \<longrightarrow> url3 = [] \<or> netloc_delim (hd url3)) \<and>
          (\<forall>c\<in>set url3. \<not> unsafe_byte c)"
    proof
      assume "take 2 url2 \<noteq> ''//'' \<and> netloc u = [] \<and> url3 = url2"
      with clean2 show ?thesis by simp
    next
      assume a: "url2 = ''//'' @ netloc u @ url3 \<and> (\<forall>c\<in>set (netloc u). \<not> netloc_delim c) \<and>
          (url3 = [] \<or> netloc_delim (hd url3)) \<and> brackets_ok valid_host (netloc u)"
      then have e: "url2 = ''//'' @ netloc u @ url3" by (rule conjunct1)
      have "\<forall>c\<in>set (''//'' @ netloc u @ url3). \<not> unsafe_byte c"
        using clean2 unfolding e[symmetric] .
      then have cl: "\<forall>c\<in>set (netloc u). \<not> unsafe_byte c" "\<forall>c\<in>set url3. \<not> unsafe_byte c"
        by simp_all
      from a have nd: "\<forall>c\<in>set (netloc u). \<not> netloc_delim c"
        and t: "url3 = [] \<or> netloc_delim (hd url3)" by simp_all
      have "\<forall>c\<in>set (netloc u). c \<noteq> CHR ''/'' \<and> c \<noteq> CHR 0x0A"
      proof
        fix c assume "c \<in> set (netloc u)"
        with cl(1) nd have "\<not> unsafe_byte c" "\<not> netloc_delim c" by simp_all
        then show "c \<noteq> CHR ''/'' \<and> c \<noteq> CHR 0x0A"
          by (simp add: netloc_delim_def unsafe_byte_def)
      qed
      with t cl(2) show ?thesis by simp
    qed
    then show "\<forall>c\<in>set (netloc u). c \<noteq> CHR ''/'' \<and> c \<noteq> CHR 0x0A"
      and "netloc u \<noteq> [] \<longrightarrow> url3 = [] \<or> netloc_delim (hd url3)"
      and "\<forall>c\<in>set url3. \<not> unsafe_byte c" by simp_all
  qed
  have Hc: "\<forall>c\<in>set H. c \<noteq> CHR ''/'' \<and> c \<noteq> CHR 0x0A"
    using d(7) host_char_facts(5,6) by blast
  have p'stop: "pth' = [] \<or> \<not> (hd pth' \<noteq> CHR ''/'' \<and> hd pth' \<noteq> CHR 0x0A)"
    unfolding pth'_def by (cases pth) auto
  have Rstop: "R = [] \<or> \<not> (hd R \<noteq> CHR ''/'' \<and> hd R \<noteq> CHR 0x0A)"
    using d(8) by (cases R) (auto simp: at_end_def)
  from append_stop_pred[of "netloc u" pth' H R "\<lambda>c. c \<noteq> CHR ''/'' \<and> c \<noteq> CHR 0x0A",
      OF e2 nlc Hc p'stop Rstop]
  have nlH: "netloc u = H" and "pth' = R" .
  text \<open>The path.\<close>
  have "netloc u \<noteq> []" using nlH d(5) by auto
  with tail3 have t3: "url3 = [] \<or> netloc_delim (hd url3)" by simp
  have p0: "p = [] \<or> hd p = CHR ''/''"
  proof (cases p)
    case Nil
    then show ?thesis by simp
  next
    case (Cons c cs)
    with u3 t3 have "netloc_delim c" by simp
    moreover from Cons pq have "c \<noteq> CHR ''#''" "c \<noteq> CHR ''?''" by auto
    ultimately show ?thesis using Cons by (simp add: netloc_delim_def)
  qed
  have pth0: "pth = [] \<or> hd pth = CHR ''/''"
    using rel p0 by (cases pth) auto
  then have pp': "pth' = pth" unfolding pth'_def by (cases pth) auto
  have sub: "set pth \<subseteq> set p" using rel by auto
  have "set p \<subseteq> set url3" unfolding u3 by simp
  with clean3 sub pq have chars: "\<forall>c\<in>set pth. \<not> unsafe_byte c \<and> c \<noteq> CHR ''#'' \<and> c \<noteq> CHR ''?''"
    by blast
  have form: "urlunparse (u\<lparr>fragment := [], query := []\<rparr>) = ''https'' @ ''://'' @ netloc u @ pth"
    unfolding out_def[symmetric] using out sch_ne X2 pp' https by simp
  have resplit: "(if CHR '';'' \<in> set pth then splitparams pth else (pth, [])) = (path u, params u)"
  proof -
    from pp https https_uses(2)
    have "(if CHR '';'' \<in> set p then splitparams p else (p, [])) = (path u, params u)" by simp
    from splitparams_rejoin(1)[OF this] show ?thesis unfolding pth_def .
  qed
  show thesis
    using https d(3)[folded nlH] d(7)[folded nlH] pth_def form pth0 chars resplit by (rule that)
qed

lemma internal_reparse:
  assumes up: "urlparse valid_host x [] = Some u"
    and int: "is_internal (urlunparse (u\<lparr>fragment := [], query := []\<rparr>))"
  shows "urlparse valid_host (urlunparse (u\<lparr>fragment := [], query := []\<rparr>)) s0 =
           Some (u\<lparr>fragment := [], query := []\<rparr>)"
proof -
  from up int obtain pth where
    n: "scheme u = ''https''"
      "str_lower (netloc u) = ''engsoftmoderna.info''"
      "\<forall>c\<in>set (netloc u). ascii_alpha c \<or> c = CHR ''.''"
      "pth = (if params u \<noteq> [] then path u @ '';'' @ params u else path u)"
      "urlunparse (u\<lparr>fragment := [], query := []\<rparr>) = ''https'' @ ''://'' @ netloc u @ pth"
      "pth = [] \<or> hd pth = CHR ''/''"
      "\<forall>c\<in>set pth. \<not> unsafe_byte c \<and> c \<noteq> CHR ''#'' \<and> c \<noteq> CHR ''?''"
      "(if CHR '';'' \<in> set pth then splitparams pth else (pth, [])) = (path u, params u)"
    by (rule internal_normal_form)
  have S: "''https'' \<noteq> []" "\<forall>c\<in>set ''https''. ascii_alpha c"
    by (simp_all add: ascii_alpha_def)
  have N: "\<forall>c\<in>set (netloc u). \<not> netloc_delim c \<and> \<not> unsafe_byte c \<and> c \<noteq> CHR ''['' \<and> c \<noteq> CHR '']''"
  proof
    fix c assume "c \<in> set (netloc u)"
    with n(3) have "ascii_alpha c \<or> c = CHR ''.''" by simp
    from host_char_facts(1-4)[OF this]
    show "\<not> netloc_delim c \<and> \<not> unsafe_byte c \<and> c \<noteq> CHR ''['' \<and> c \<noteq> CHR '']''"
      by (intro conjI)
  qed
  have R: "filter (\<lambda>c. \<not> unsafe_byte c) pth = pth"
    using n(7) by (simp add: filter_id_conv)
  have R': "pth = [] \<or> netloc_delim (hd pth)"
    using n(6) by (auto simp: netloc_delim_def)
  have h: "CHR ''#'' \<notin> set pth" and q: "CHR ''?'' \<notin> set pth" using n(7) by auto
  have tw: "takeWhile (\<lambda>c. c \<noteq> CHR ''?'') (takeWhile (\<lambda>c. c \<noteq> CHR ''#'') pth) = pth"
    by (simp only: takeWhile_not_mem[OF h] takeWhile_not_mem[OF q])
  have dq: "drop 1 (dropWhile (\<lambda>c. c \<noteq> CHR ''?'') (takeWhile (\<lambda>c. c \<noteq> CHR ''#'') pth)) = []"
    by (simp only: takeWhile_not_mem[OF h] dropWhile_not_mem[OF q] drop_Nil)
  have df: "drop 1 (dropWhile (\<lambda>c. c \<noteq> CHR ''#'') pth) = []"
    by (simp only: dropWhile_not_mem[OF h] drop_Nil)
  have "urlsplit valid_host (''https'' @ ''://'' @ netloc u @ pth) s0 =
          Some (''https'', netloc u, pth, [], [])"
    using urlsplit_origin[OF S N R R', of valid_host s0]
    by (simp only: tw dq df str_lower_https)
  then have "urlparse valid_host (''https'' @ ''://'' @ netloc u @ pth) s0 =
      Some \<lparr>scheme = ''https'', netloc = netloc u,
            path = fst (if ''https'' \<in> set uses_params \<and> CHR '';'' \<in> set pth
                        then splitparams pth else (pth, [])),
            params = snd (if ''https'' \<in> set uses_params \<and> CHR '';'' \<in> set pth
                          then splitparams pth else (pth, [])),
            query = [], fragment = []\<rparr>"
    unfolding urlparse_def Let_def by (simp only: option.case prod.case)
  also have "(if ''https'' \<in> set uses_params \<and> CHR '';'' \<in> set pth
              then splitparams pth else (pth, [])) = (path u, params u)"
    using n(8) https_uses(2) by (simp only: simp_thms)
  finally have "urlparse valid_host (''https'' @ ''://'' @ netloc u @ pth) s0 =
      Some \<lparr>scheme = ''https'', netloc = netloc u, path = path u, params = params u,
            query = [], fragment = []\<rparr>"
    by (simp only: fst_conv snd_conv)
  moreover have "u\<lparr>fragment := [], query := []\<rparr> =
      \<lparr>scheme = ''https'', netloc = netloc u, path = path u, params = params u,
       query = [], fragment = []\<rparr>"
    by (rule parse_result.equality) (simp_all add: n(1))
  ultimately show ?thesis unfolding n(5) by (simp only:)
qed

text \<open>What a call of \<^verbatim>\<open>normalize\<close> went through when it returns a URL.\<close>

lemma normalize_url_cases:
  assumes "normalize_url valid_host href = Some out" and "out \<noteq> []"
  obtains a u where "urljoin valid_host BASE (str_strip href) = Some a"
    and "urlparse valid_host a [] = Some u"
    and "out = urlunparse (u\<lparr>fragment := [], query := []\<rparr>)"
    and "is_internal out"
    and "\<not> (\<exists>e\<in>set SKIP_EXTS. endswith (str_lower out) e)"
proof -
  from assms have h: "href \<noteq> []" "\<not> startswith (str_strip href) ''#''"
    by (auto simp: normalize_url_def Let_def split: if_splits)
  with assms(1) obtain a where a: "urljoin valid_host BASE (str_strip href) = Some a"
    by (cases "urljoin valid_host BASE (str_strip href)") (simp_all add: normalize_url_def Let_def)
  with assms(1) h obtain u where u: "urlparse valid_host a [] = Some u"
    by (cases "urlparse valid_host a []") (simp_all add: normalize_url_def Let_def)
  let ?absu = "urlunparse (u\<lparr>fragment := [], query := []\<rparr>)"
  from assms(1) h a u have r: "(if \<not> is_internal ?absu then Some []
      else if \<exists>e\<in>set SKIP_EXTS. endswith (str_lower ?absu) e then Some [] else Some ?absu) = Some out"
    by (simp add: normalize_url_def Let_def)
  have i: "is_internal ?absu"
  proof (rule ccontr)
    assume "\<not> is_internal ?absu"
    with r have "Some [] = Some out" by simp
    with assms(2) show False by simp
  qed
  have s: "\<not> (\<exists>e\<in>set SKIP_EXTS. endswith (str_lower ?absu) e)"
  proof
    assume "\<exists>e\<in>set SKIP_EXTS. endswith (str_lower ?absu) e"
    with r i have "Some [] = Some out" by simp
    with assms(2) show False by simp
  qed
  from r i s have o: "out = ?absu" by simp
  show thesis
    using a u o i[folded o] s[folded o] by (rule that)
qed

lemma urlparse_BASE:
  "urlparse valid_host BASE [] =
     Some \<lparr>scheme = ''https'', netloc = ''engsoftmoderna.info'', path = [], params = [],
           query = [], fragment = []\<rparr>"
proof -
  have S: "''https'' \<noteq> []" "\<forall>c\<in>set ''https''. ascii_alpha c"
    by (simp_all add: ascii_alpha_def)
  have N: "\<forall>c\<in>set ''engsoftmoderna.info''.
             \<not> netloc_delim c \<and> \<not> unsafe_byte c \<and> c \<noteq> CHR ''['' \<and> c \<noteq> CHR '']''"
    by (simp add: netloc_delim_def unsafe_byte_def)
  have R: "filter (\<lambda>c. \<not> unsafe_byte c) [] = []" "[] = [] \<or> netloc_delim (hd [])"
    by simp_all
  have "urlsplit valid_host (''https'' @ ''://'' @ ''engsoftmoderna.info'' @ []) [] =
          Some (''https'', ''engsoftmoderna.info'', [], [], [])"
    using urlsplit_origin[OF S N R, of valid_host "[]"] by (simp add: str_lower_https)
  moreover have "BASE = ''https'' @ ''://'' @ ''engsoftmoderna.info'' @ []"
    by (simp add: BASE_def)
  ultimately have "urlsplit valid_host BASE [] = Some (''https'', ''engsoftmoderna.info'', [], [], [])"
    by (simp only:)
  then show ?thesis by (simp add: urlparse_def Let_def)
qed

text \<open>
  On strings of code points below 256, where \<^verbatim>\<open>re.IGNORECASE\<close> equates only the two cases of an
  ASCII letter: if the URL that \<^verbatim>\<open>urljoin\<close> resolves the stripped \<^verbatim>\<open>href\<close> to does not have
  the scheme \<^verbatim>\<open>https\<close> and, up to case, the host \<^verbatim>\<open>engsoftmoderna.info\<close>, then \<^verbatim>\<open>normalize\<close>
  returns the empty string. Whatever \<^verbatim>\<open>normalize\<close> returns contains neither \<^verbatim>\<open>#\<close> nor \<^verbatim>\<open>?\<close>,
  so it has no fragment and no query. \<^verbatim>\<open>#section\<close> gives the empty string and
  \<^verbatim>\<open>/cap1.html?x=1#y\<close> gives \<^verbatim>\<open>https://engsoftmoderna.info/cap1.html\<close>.
\<close>

lemma normalize_below_256:
  "(urljoin valid_host BASE (str_strip href) = Some a \<longrightarrow>
    urlparse valid_host a [] = Some u \<longrightarrow>
    \<not> (scheme u = ''https'' \<and> str_lower (netloc u) = ''engsoftmoderna.info'') \<longrightarrow>
    normalize_url valid_host href = Some []) \<and>
   (normalize_url valid_host href = Some out \<longrightarrow>
    CHR ''#'' \<notin> set out \<and> CHR ''?'' \<notin> set out) \<and>
   normalize_url valid_host ''#section'' = Some [] \<and>
   normalize_url valid_host ''/cap1.html?x=1#y'' = Some ''https://engsoftmoderna.info/cap1.html''"
proof (intro conjI impI)
  assume a: "urljoin valid_host BASE (str_strip href) = Some a"
    and u: "urlparse valid_host a [] = Some u"
    and o: "\<not> (scheme u = ''https'' \<and> str_lower (netloc u) = ''engsoftmoderna.info'')"
  have "\<not> is_internal (urlunparse (u\<lparr>fragment := [], query := []\<rparr>))"
  proof
    assume "is_internal (urlunparse (u\<lparr>fragment := [], query := []\<rparr>))"
    with u obtain pth where "scheme u = ''https''"
      "str_lower (netloc u) = ''engsoftmoderna.info''"
      by (rule internal_normal_form)
    with o show False by simp
  qed
  with a u show "normalize_url valid_host href = Some []"
    by (simp add: normalize_url_def Let_def)
next
  assume n: "normalize_url valid_host href = Some out"
  show "CHR ''#'' \<notin> set out" "CHR ''?'' \<notin> set out"
  proof -
    have "CHR ''#'' \<notin> set out \<and> CHR ''?'' \<notin> set out"
    proof (cases "out = []")
      case True
      then show ?thesis by simp
    next
      case False
      with n obtain a u where u: "urlparse valid_host a [] = Some u"
        and o: "out = urlunparse (u\<lparr>fragment := [], query := []\<rparr>)"
        and i: "is_internal out"
        by (rule normalize_url_cases)
      from u i[unfolded o] obtain pth where
        nl: "\<forall>c\<in>set (netloc u). ascii_alpha c \<or> c = CHR ''.''"
        and f: "urlunparse (u\<lparr>fragment := [], query := []\<rparr>) = ''https'' @ ''://'' @ netloc u @ pth"
        and c: "\<forall>c\<in>set pth. \<not> unsafe_byte c \<and> c \<noteq> CHR ''#'' \<and> c \<noteq> CHR ''?''"
        by (rule internal_normal_form)
      have "\<forall>c\<in>set (netloc u). c \<noteq> CHR ''#'' \<and> c \<noteq> CHR ''?''"
      proof
        fix c assume "c \<in> set (netloc u)"
        with nl have "ascii_alpha c \<or> c = CHR ''.''" by simp
        from host_char_facts(7,8)[OF this] show "c \<noteq> CHR ''#'' \<and> c \<noteq> CHR ''?''"
          by (intro conjI)
      qed
      with c show ?thesis unfolding o f by auto
    qed
    then show "CHR ''#'' \<notin> set out" "CHR ''?'' \<notin> set out" by simp_all
  qed
next
  show "normalize_url valid_host ''#section'' = Some []"
    by (simp add: normalize_url_def Let_def str_strip_def is_space_def startswith_def)
next
  show "normalize_url valid_host ''/cap1.html?x=1#y'' = Some ''https://engsoftmoderna.info/cap1.html''"
    by code_simp
qed

lemma normalize_below_256_examples:
  "normalize_url (\<lambda>h. True) ''http://example.com/x?q=1#f'' = Some [] \<and>
   normalize_url (\<lambda>h. True) ''  /faq/git-faq.html?x=1#y '' =
     Some ''https://engsoftmoderna.info/faq/git-faq.html'' \<and>
   CHR ''#'' \<notin> set ''https://engsoftmoderna.info/faq/git-faq.html'' \<and>
   CHR ''?'' \<notin> set ''https://engsoftmoderna.info/faq/git-faq.html''"
proof -
  let ?u = "\<lparr>scheme = ''http'', netloc = ''example.com'', path = ''/x'', params = [],
             query = ''q=1'', fragment = ''f''\<rparr>"
  have j: "urljoin (\<lambda>h. True) BASE (str_strip ''http://example.com/x?q=1#f'') =
             Some ''http://example.com/x?q=1#f''"
    by code_simp
  have p: "urlparse (\<lambda>h. True) ''http://example.com/x?q=1#f'' [] = Some ?u"
    by code_simp
  have o: "\<not> (scheme ?u = ''https'' \<and> str_lower (netloc ?u) = ''engsoftmoderna.info'')"
    by simp
  have n: "normalize_url (\<lambda>h. True) ''  /faq/git-faq.html?x=1#y '' =
             Some ''https://engsoftmoderna.info/faq/git-faq.html''"
    by code_simp
  from normalize_below_256
         [of "\<lambda>h. True" "''http://example.com/x?q=1#f''" "''http://example.com/x?q=1#f''" ?u "[]"]
  have "urljoin (\<lambda>h. True) BASE (str_strip ''http://example.com/x?q=1#f'') =
          Some ''http://example.com/x?q=1#f'' \<longrightarrow>
        urlparse (\<lambda>h. True) ''http://example.com/x?q=1#f'' [] = Some ?u \<longrightarrow>
        \<not> (scheme ?u = ''https'' \<and> str_lower (netloc ?u) = ''engsoftmoderna.info'') \<longrightarrow>
        normalize_url (\<lambda>h. True) ''http://example.com/x?q=1#f'' = Some []"
    by (rule conjunct1)
  from mp[OF mp[OF mp[OF this j] p] o]
  have 1: "normalize_url (\<lambda>h. True) ''http://example.com/x?q=1#f'' = Some []" .
  from normalize_below_256
         [of "\<lambda>h. True" "''  /faq/git-faq.html?x=1#y ''" "[]" ?u
             "''https://engsoftmoderna.info/faq/git-faq.html''"]
  have "normalize_url (\<lambda>h. True) ''  /faq/git-faq.html?x=1#y '' =
          Some ''https://engsoftmoderna.info/faq/git-faq.html'' \<longrightarrow>
        CHR ''#'' \<notin> set ''https://engsoftmoderna.info/faq/git-faq.html'' \<and>
        CHR ''?'' \<notin> set ''https://engsoftmoderna.info/faq/git-faq.html''"
    by (rule conjunct1[OF conjunct2])
  with n have 2: "CHR ''#'' \<notin> set ''https://engsoftmoderna.info/faq/git-faq.html'' \<and>
        CHR ''?'' \<notin> set ''https://engsoftmoderna.info/faq/git-faq.html''"
    by (rule rev_mp)
  from n 2 have "normalize_url (\<lambda>h. True) ''  /faq/git-faq.html?x=1#y '' =
     Some ''https://engsoftmoderna.info/faq/git-faq.html'' \<and>
   CHR ''#'' \<notin> set ''https://engsoftmoderna.info/faq/git-faq.html'' \<and>
   CHR ''?'' \<notin> set ''https://engsoftmoderna.info/faq/git-faq.html''"
    by (rule conjI)
  with 1 show ?thesis by (rule conjI)
qed

text \<open>
  C8, as stated, fails. A space in front of the query is not at the end of the string when
  \<^verbatim>\<open>strip\<close> runs, and it ends the result once the query is removed: \<^verbatim>\<open>/a ?x\<close> gives
  \<^verbatim>\<open>https://engsoftmoderna.info/a\<close> followed by a space, and this result gives
  \<^verbatim>\<open>https://engsoftmoderna.info/a\<close>.
\<close>

theorem normalize_not_idempotent_counterexample:
  "\<not> (\<forall>href out. normalize_url (\<lambda>h. True) href = Some out \<longrightarrow> out \<noteq> [] \<longrightarrow>
        normalize_url (\<lambda>h. True) out = Some out)"
proof
  assume a: "\<forall>href out. normalize_url (\<lambda>h. True) href = Some out \<longrightarrow> out \<noteq> [] \<longrightarrow>
        normalize_url (\<lambda>h. True) out = Some out"
  have 1: "normalize_url (\<lambda>h. True) ''/a ?x'' = Some ''https://engsoftmoderna.info/a ''"
    by code_simp
  have 2: "normalize_url (\<lambda>h. True) ''https://engsoftmoderna.info/a '' =
             Some ''https://engsoftmoderna.info/a''"
    by code_simp
  from a 1 have "normalize_url (\<lambda>h. True) ''https://engsoftmoderna.info/a '' =
             Some ''https://engsoftmoderna.info/a ''"
    by simp
  with 2 show False by simp
qed

text \<open>
  C8, amended. When \<^verbatim>\<open>normalize\<close> returns a non-empty URL that \<^verbatim>\<open>strip\<close> leaves unchanged,
  that is, one that does not end in white space, normalizing this URL returns it unchanged.
\<close>

theorem normalize_idempotent_on_stripped:
  assumes n: "normalize_url valid_host href = Some out" and ne: "out \<noteq> []"
    and st: "str_strip out = out"
  shows "normalize_url valid_host out = Some out"
proof -
  from n ne obtain a u where u: "urlparse valid_host a [] = Some u"
    and o: "out = urlunparse (u\<lparr>fragment := [], query := []\<rparr>)"
    and i: "is_internal out"
    and s: "\<not> (\<exists>e\<in>set SKIP_EXTS. endswith (str_lower out) e)"
    by (rule normalize_url_cases)
  define r where "r = u\<lparr>fragment := [], query := []\<rparr>"
  have or: "urlunparse r = out" unfolding r_def o ..
  from u i[unfolded o] obtain pth where
    sch: "scheme u = ''https''"
    and low: "str_lower (netloc u) = ''engsoftmoderna.info''"
    and f: "urlunparse (u\<lparr>fragment := [], query := []\<rparr>) = ''https'' @ ''://'' @ netloc u @ pth"
    by (rule internal_normal_form)
  have rp: "urlparse valid_host out s0 = Some r" for s0
    unfolding o r_def using u i[unfolded o] by (rule internal_reparse)
  have rs: "scheme r = ''https''" unfolding r_def using sch by simp
  have rn: "netloc r \<noteq> []"
  proof
    assume "netloc r = []"
    then have "netloc u = []" unfolding r_def by simp
    with low show False by (simp add: str_lower_def)
  qed
  have rc: "r\<lparr>fragment := [], query := []\<rparr> = r" unfolding r_def by simp
  have nohash: "\<not> startswith out ''#''"
    unfolding o f by (simp add: startswith_def)
  have bne: "BASE \<noteq> []" by (simp add: BASE_def)
  have j: "urljoin valid_host BASE out = Some out"
    unfolding urljoin_def
    using bne ne rp[of "''https''"] rs rn https_uses(1,3) or
    by (simp add: urlparse_BASE)
  show ?thesis
    unfolding normalize_url_def Let_def
    using ne st nohash j rp[of "[]"] rc or i s
    by simp
qed

theorem normalize_idempotent_on_stripped_witness:
  "normalize_url (\<lambda>h. True) '' /Cap1.html;v=2?x=1#y'' = Some ''https://engsoftmoderna.info/Cap1.html;v=2'' \<and>
   normalize_url (\<lambda>h. True) ''https://engsoftmoderna.info/Cap1.html;v=2'' =
     Some ''https://engsoftmoderna.info/Cap1.html;v=2''"
proof -
  have n: "normalize_url (\<lambda>h. True) '' /Cap1.html;v=2?x=1#y'' =
             Some ''https://engsoftmoderna.info/Cap1.html;v=2''"
    by code_simp
  have ne: "''https://engsoftmoderna.info/Cap1.html;v=2'' \<noteq> []" by simp
  have st: "str_strip ''https://engsoftmoderna.info/Cap1.html;v=2'' =
              ''https://engsoftmoderna.info/Cap1.html;v=2''"
    by code_simp
  from normalize_idempotent_on_stripped[OF n ne st]
  have "normalize_url (\<lambda>h. True) ''https://engsoftmoderna.info/Cap1.html;v=2'' =
     Some ''https://engsoftmoderna.info/Cap1.html;v=2''" .
  with n show ?thesis by (rule conjI)
qed

subsection \<open>Page renderer: the files written\<close>

text \<open>The artifact names of different positions of a batch are different.\<close>

lemma digits_value:
  "foldl (\<lambda>a c. 10 * a + ((of_char c :: nat) - 48)) 0 (digits n) = n"
proof (induction n rule: digits.induct)
  case (1 n)
  show ?case
  proof (cases "n < 10")
    case True
    then have "(of_char (char_of (48 + n)) :: nat) = 48 + n" by (simp add: of_char_of)
    with True show ?thesis by (subst digits.simps) simp
  next
    case False
    have "n mod 10 < 10" by simp
    then have "(of_char (char_of (48 + n mod 10)) :: nat) = 48 + n mod 10"
      by (simp add: of_char_of)
    with False 1 show ?thesis by (subst digits.simps) simp
  qed
qed

lemma zeros_value:
  "foldl (\<lambda>a c. 10 * a + ((of_char c :: nat) - 48)) 0 (replicate k (CHR ''0'') @ s) =
   foldl (\<lambda>a c. 10 * a + ((of_char c :: nat) - 48)) 0 s"
  by (induction k) simp_all

lemma fmt04_value:
  "foldl (\<lambda>a c. 10 * a + ((of_char c :: nat) - 48)) 0 (fmt04 n) = n"
  unfolding fmt04_def zeros_value by (rule digits_value)

lemma fmt04_inj:
  assumes "fmt04 i = fmt04 j"
  shows "i = j"
proof -
  have "i = foldl (\<lambda>a c. 10 * a + ((of_char c :: nat) - 48)) 0 (fmt04 i)"
    by (rule fmt04_value[symmetric])
  also have "\<dots> = foldl (\<lambda>a c. 10 * a + ((of_char c :: nat) - 48)) 0 (fmt04 j)"
    by (simp only: assms)
  also have "\<dots> = j" by (rule fmt04_value)
  finally show ?thesis .
qed

lemma digits_no_space: "CHR '' '' \<notin> set (digits n)"
proof (induction n rule: digits.induct)
  case (1 n)
  have d: "char_of (48 + k) \<noteq> CHR '' ''" if "k < 10" for k :: nat
    using that by (simp add: char_of_eq_code)
  show ?case
  proof (cases "n < 10")
    case True
    with d[of n] show ?thesis by (subst digits.simps) simp
  next
    case False
    have "n mod 10 < 10" by simp
    from d[OF this] False 1 show ?thesis by (subst digits.simps) simp
  qed
qed

lemma fmt04_no_space: "CHR '' '' \<notin> set (fmt04 n)"
  using digits_no_space[of n] by (simp add: fmt04_def)

lemma page_file_idx_inj:
  assumes "page_file i p = page_file j q"
  shows "i = j"
proof -
  from assms have "fmt04 i @ CHR '' '' # (''- '' @ safe_name p @ ''.pdf'') =
                   fmt04 j @ CHR '' '' # (''- '' @ safe_name q @ ''.pdf'')"
    by (simp add: page_file_def)
  then have "fmt04 i = fmt04 j"
    using fmt04_no_space[of i] fmt04_no_space[of j] by (rule append_stop_char(1))
  then show ?thesis by (rule fmt04_inj)
qed

lemma artifact_idx_inj:
  assumes "url_path valid_host u \<noteq> None" and "url_path valid_host v \<noteq> None"
    and "artifact valid_host i u = artifact valid_host j v"
  shows "i = j"
proof -
  from assms(1,2) obtain p q where "url_path valid_host u = Some p" "url_path valid_host v = Some q"
    by auto
  with assms(3) have "page_file i p = page_file j q" by (simp add: artifact_def)
  then show ?thesis by (rule page_file_idx_inj)
qed

lemma set_write_file:
  "set (write_file name doc d) = insert (name, doc) {e \<in> set d. fst e \<noteq> name}"
proof (cases "name \<in> fst ` set d")
  case False
  then have "{e \<in> set d. fst e \<noteq> name} = set d" by force
  with False show ?thesis by (simp add: write_file_def)
next
  case True
  have "set (map (\<lambda>(n, c). if n = name then (n, doc) else (n, c)) d) =
        (if name \<in> fst ` set d then {(name, doc)} else {}) \<union> {e \<in> set d. fst e \<noteq> name}"
    by (induction d) (auto split: if_splits)
  with True show ?thesis by (simp add: write_file_def)
qed

text \<open>
  The directory after the loop: the documents printed for the rendered URLs, each under
  its artifact name, and the files that were there before and do not have the name of
  such an artifact.
\<close>

lemma render_loop_contents:
  assumes "\<forall>u\<in>set us. url_path valid_host u \<noteq> None"
  shows "set (dir (snd (render_loop valid_host goto pdf idx us st))) =
           {(n, c). \<exists>i<length us. rendered goto pdf (us ! i) \<and>
                      n = artifact valid_host (idx + i) (us ! i) \<and> pdf (us ! i) = Some c} \<union>
           {e \<in> set (dir st). \<not> (\<exists>i<length us. rendered goto pdf (us ! i) \<and>
                      fst e = artifact valid_host (idx + i) (us ! i))}"
  using assms
proof (induction us arbitrary: idx st)
  case Nil
  then show ?case by simp
next
  case (Cons u us)
  from Cons.prems obtain p where p: "url_path valid_host u = Some p" by auto
  have rest: "\<forall>u\<in>set us. url_path valid_host u \<noteq> None" using Cons.prems by simp
  have a: "artifact valid_host idx u = page_file idx p" by (simp add: artifact_def p)
  define A where "A = {(n, c). \<exists>i<length us. rendered goto pdf (us ! i) \<and>
                      n = artifact valid_host (Suc idx + i) (us ! i) \<and> pdf (us ! i) = Some c}"
  define W where "W = (\<lambda>n. \<exists>i<length us. rendered goto pdf (us ! i) \<and>
                      n = artifact valid_host (Suc idx + i) (us ! i))"
  have ex_Suc: "(\<exists>i<length (u # us). Q i) \<longleftrightarrow> Q 0 \<or> (\<exists>i<length us. Q (Suc i))" for Q
  proof
    assume "\<exists>i<length (u # us). Q i"
    then obtain i where i: "i < length (u # us)" "Q i" by blast
    show "Q 0 \<or> (\<exists>i<length us. Q (Suc i))"
    proof (cases i)
      case 0
      with i show ?thesis by simp
    next
      case (Suc j)
      with i have "j < length us" "Q (Suc j)" by simp_all
      then show ?thesis by blast
    qed
  next
    assume "Q 0 \<or> (\<exists>i<length us. Q (Suc i))"
    then show "\<exists>i<length (u # us). Q i" by auto
  qed
  have lhsA: "{(n, c). \<exists>i<length (u # us). rendered goto pdf ((u # us) ! i) \<and>
                      n = artifact valid_host (idx + i) ((u # us) ! i) \<and> pdf ((u # us) ! i) = Some c} =
              {(n, c). rendered goto pdf u \<and> n = page_file idx p \<and> pdf u = Some c} \<union> A"
    unfolding A_def by (subst ex_Suc) (auto simp: a)
  have lhsW: "(\<exists>i<length (u # us). rendered goto pdf ((u # us) ! i) \<and>
                      n = artifact valid_host (idx + i) ((u # us) ! i)) \<longleftrightarrow>
              (rendered goto pdf u \<and> n = page_file idx p) \<or> W n" for n
    unfolding W_def by (subst ex_Suc) (simp add: a)
  have later: "\<not> W (page_file idx p)"
  proof
    assume "W (page_file idx p)"
    then obtain i where i: "i < length us"
      "page_file idx p = artifact valid_host (Suc idx + i) (us ! i)"
      unfolding W_def by blast
    from i(1) rest have "url_path valid_host (us ! i) \<noteq> None" by simp
    from artifact_idx_inj[OF _ this, of u idx "Suc idx + i"] p a i(2)
    have "idx = Suc idx + i" by simp
    then show False by simp
  qed
  let ?st1 = "st\<lparr>attempted := attempted st @ [u]\<rparr>"
  show ?case
  proof (cases "rendered goto pdf u")
    case False
    let ?st2 = "?st1\<lparr>console := console ?st1 @ [ERRO u]\<rparr>"
    have run: "render_loop valid_host goto pdf idx (u # us) st =
               render_loop valid_host goto pdf (Suc idx) us ?st2"
      using False p by (auto simp: rendered_def Let_def split: option.splits)
    have "set (dir (snd (render_loop valid_host goto pdf (Suc idx) us ?st2))) =
          A \<union> {e \<in> set (dir st). \<not> W (fst e)}"
      using Cons.IH[OF rest, of "Suc idx" ?st2] unfolding A_def W_def by simp
    then show ?thesis
      unfolding run lhsA lhsW using False by simp
  next
    case True
    then obtain doc where doc: "goto u" "pdf u = Some doc" by (auto simp: rendered_def)
    let ?st2 = "?st1\<lparr>dir := write_file (page_file idx p) doc (dir ?st1),
                       console := console ?st1 @ [OK (path_join OUT_DIR (page_file idx p))]\<rparr>"
    have run: "render_loop valid_host goto pdf idx (u # us) st =
               render_loop valid_host goto pdf (Suc idx) us ?st2"
      using doc p by (simp add: Let_def)
    have "set (dir (snd (render_loop valid_host goto pdf (Suc idx) us ?st2))) =
          A \<union> {e \<in> set (write_file (page_file idx p) doc (dir st)). \<not> W (fst e)}"
      using Cons.IH[OF rest, of "Suc idx" ?st2] unfolding A_def W_def by simp
    also have "{e \<in> set (write_file (page_file idx p) doc (dir st)). \<not> W (fst e)} =
               insert (page_file idx p, doc)
                 {e \<in> set (dir st). \<not> (fst e = page_file idx p \<or> W (fst e))}"
      unfolding set_write_file using later by auto
    finally show ?thesis
      unfolding run lhsA lhsW using True doc by auto
  qed
qed

text \<open>
  C5. For every list of internal URLs given to the renderer, once the browser is launched:
  every URL of the list is navigated to, in order; a URL whose navigation or printing
  fails gets its error line and writes no file, and the loop goes on; every URL whose
  navigation and printing succeed has the document printed for it in the output
  directory, under its artifact name, and its line on the console; the artifact names of
  different positions are different; the output directory holds these documents and the
  files that were there before and do not have the name of a written artifact, and
  nothing else; the run ends normally and the browser is closed exactly once.
\<close>

theorem print_to_pdf_batch:
  assumes "launch_ok" and "\<forall>u\<in>set urls. is_internal u"
  shows "\<exists>st. print_to_pdf valid_host launch_ok goto pdf dir0 urls = (Done, st) \<and>
           closed st = 1 \<and>
           attempted st = urls \<and>
           console st =
             map (\<lambda>(i, u). if rendered goto pdf u
                             then OK (path_join OUT_DIR (artifact valid_host i u)) else ERRO u)
               (zip [1 ..< 1 + length urls] urls) \<and>
           fst ` set dir0 \<subseteq> fst ` set (dir st) \<and>
           (\<forall>i<length urls. rendered goto pdf (urls ! i) \<longrightarrow>
              artifact valid_host (1 + i) (urls ! i) \<in> fst ` set (dir st)) \<and>
           (\<forall>i<length urls. \<forall>doc. goto (urls ! i) \<longrightarrow> pdf (urls ! i) = Some doc \<longrightarrow>
              (artifact valid_host (1 + i) (urls ! i), doc) \<in> set (dir st) \<and>
              (\<forall>c. (artifact valid_host (1 + i) (urls ! i), c) \<in> set (dir st) \<longrightarrow> c = doc)) \<and>
           (\<forall>i<length urls. \<not> rendered goto pdf (urls ! i) \<longrightarrow>
              (\<forall>c. (artifact valid_host (1 + i) (urls ! i), c) \<in> set (dir st) \<longleftrightarrow>
                    (artifact valid_host (1 + i) (urls ! i), c) \<in> set dir0)) \<and>
           (\<forall>i<length urls. \<not> rendered goto pdf (urls ! i) \<longrightarrow>
              artifact valid_host (1 + i) (urls ! i) \<notin> fst ` set dir0 \<longrightarrow>
              artifact valid_host (1 + i) (urls ! i) \<notin> fst ` set (dir st)) \<and>
           (\<forall>i<length urls. \<forall>j<length urls.
              artifact valid_host (1 + i) (urls ! i) = artifact valid_host (1 + j) (urls ! j) \<longrightarrow>
              i = j) \<and>
           set (dir st) =
             {(n, c). \<exists>i<length urls. rendered goto pdf (urls ! i) \<and>
                        n = artifact valid_host (1 + i) (urls ! i) \<and> pdf (urls ! i) = Some c} \<union>
             {e \<in> set dir0. \<not> (\<exists>i<length urls. rendered goto pdf (urls ! i) \<and>
                        fst e = artifact valid_host (1 + i) (urls ! i))}"
proof -
  let ?st0 = "\<lparr>dir = dir0, console = [], attempted = [], closed = 0\<rparr>"
  have ok: "\<forall>u\<in>set urls. url_path valid_host u \<noteq> None"
  proof
    fix u assume "u \<in> set urls"
    with assms(2) have "is_internal u" by (rule bspec)
    then show "url_path valid_host u \<noteq> None" by (rule url_path_internal)
  qed
  have oki: "url_path valid_host (urls ! i) \<noteq> None" if "i < length urls" for i
    using ok that by simp
  from render_loop_batch[OF ok, of goto pdf 1 ?st0]
  obtain st where loop: "render_loop valid_host goto pdf 1 urls ?st0 = (Done, st)"
    and c1: "closed st = closed ?st0 + 1"
    and c2: "attempted st = attempted ?st0 @ urls"
    and c3: "console st = console ?st0 @
             map (\<lambda>(i, u). if rendered goto pdf u
                             then OK (path_join OUT_DIR (artifact valid_host i u)) else ERRO u)
               (zip [1 ..< 1 + length urls] urls)"
    and c4: "fst ` set (dir ?st0) \<subseteq> fst ` set (dir st)"
    and c5: "\<forall>i<length urls. rendered goto pdf (urls ! i) \<longrightarrow>
              artifact valid_host (1 + i) (urls ! i) \<in> fst ` set (dir st)"
    by (elim exE conjE)
  from loop assms(1) have run: "print_to_pdf valid_host launch_ok goto pdf dir0 urls = (Done, st)"
    by (simp add: print_to_pdf_def)
  have inj: "i = j" if "i < length urls" "j < length urls"
    "artifact valid_host (1 + i) (urls ! i) = artifact valid_host (1 + j) (urls ! j)" for i j
  proof -
    from artifact_idx_inj[OF oki[OF that(1)] oki[OF that(2)] that(3)]
    show ?thesis by simp
  qed
  have "set (dir (snd (render_loop valid_host goto pdf 1 urls ?st0))) =
             {(n, c). \<exists>i<length urls. rendered goto pdf (urls ! i) \<and>
                        n = artifact valid_host (1 + i) (urls ! i) \<and> pdf (urls ! i) = Some c} \<union>
             {e \<in> set (dir ?st0). \<not> (\<exists>i<length urls. rendered goto pdf (urls ! i) \<and>
                        fst e = artifact valid_host (1 + i) (urls ! i))}"
    using ok by (rule render_loop_contents)
  then have contents: "set (dir st) =
             {(n, c). \<exists>i<length urls. rendered goto pdf (urls ! i) \<and>
                        n = artifact valid_host (1 + i) (urls ! i) \<and> pdf (urls ! i) = Some c} \<union>
             {e \<in> set dir0. \<not> (\<exists>i<length urls. rendered goto pdf (urls ! i) \<and>
                        fst e = artifact valid_host (1 + i) (urls ! i))}"
    unfolding loop by simp
  have mem: "(n, c) \<in> set (dir st) \<longleftrightarrow>
      (\<exists>i<length urls. rendered goto pdf (urls ! i) \<and>
          n = artifact valid_host (1 + i) (urls ! i) \<and> pdf (urls ! i) = Some c) \<or>
      ((n, c) \<in> set dir0 \<and> \<not> (\<exists>i<length urls. rendered goto pdf (urls ! i) \<and>
          n = artifact valid_host (1 + i) (urls ! i)))" for n c
    unfolding contents by simp
  have good: "\<forall>i<length urls. \<forall>doc. goto (urls ! i) \<longrightarrow> pdf (urls ! i) = Some doc \<longrightarrow>
              (artifact valid_host (1 + i) (urls ! i), doc) \<in> set (dir st) \<and>
              (\<forall>c. (artifact valid_host (1 + i) (urls ! i), c) \<in> set (dir st) \<longrightarrow> c = doc)"
  proof (intro allI impI)
    fix i doc assume i: "i < length urls" and g: "goto (urls ! i)" and d: "pdf (urls ! i) = Some doc"
    from g d have r: "rendered goto pdf (urls ! i)" by (simp add: rendered_def)
    have 1: "(artifact valid_host (1 + i) (urls ! i), doc) \<in> set (dir st)"
      unfolding mem using i r d by blast
    have 2: "\<forall>c. (artifact valid_host (1 + i) (urls ! i), c) \<in> set (dir st) \<longrightarrow> c = doc"
    proof (intro allI impI)
      fix c assume "(artifact valid_host (1 + i) (urls ! i), c) \<in> set (dir st)"
      then have "(\<exists>j<length urls. rendered goto pdf (urls ! j) \<and>
          artifact valid_host (1 + i) (urls ! i) = artifact valid_host (1 + j) (urls ! j) \<and>
          pdf (urls ! j) = Some c) \<or>
        \<not> (\<exists>j<length urls. rendered goto pdf (urls ! j) \<and>
          artifact valid_host (1 + i) (urls ! i) = artifact valid_host (1 + j) (urls ! j))"
        unfolding mem by blast
      then show "c = doc"
      proof
        assume "\<exists>j<length urls. rendered goto pdf (urls ! j) \<and>
          artifact valid_host (1 + i) (urls ! i) = artifact valid_host (1 + j) (urls ! j) \<and>
          pdf (urls ! j) = Some c"
        then obtain j where j: "j < length urls"
          "artifact valid_host (1 + i) (urls ! i) = artifact valid_host (1 + j) (urls ! j)"
          "pdf (urls ! j) = Some c" by blast
        from inj[OF i j(1,2)] j(3) d show ?thesis by simp
      next
        assume "\<not> (\<exists>j<length urls. rendered goto pdf (urls ! j) \<and>
          artifact valid_host (1 + i) (urls ! i) = artifact valid_host (1 + j) (urls ! j))"
        with i r show ?thesis by blast
      qed
    qed
    from 1 2 show "(artifact valid_host (1 + i) (urls ! i), doc) \<in> set (dir st) \<and>
              (\<forall>c. (artifact valid_host (1 + i) (urls ! i), c) \<in> set (dir st) \<longrightarrow> c = doc)"
      by (rule conjI)
  qed
  have nowrite: "\<not> (\<exists>j<length urls. rendered goto pdf (urls ! j) \<and>
          artifact valid_host (1 + i) (urls ! i) = artifact valid_host (1 + j) (urls ! j))"
    if "i < length urls" "\<not> rendered goto pdf (urls ! i)" for i
  proof
    assume "\<exists>j<length urls. rendered goto pdf (urls ! j) \<and>
          artifact valid_host (1 + i) (urls ! i) = artifact valid_host (1 + j) (urls ! j)"
    then obtain j where j: "j < length urls" "rendered goto pdf (urls ! j)"
      "artifact valid_host (1 + i) (urls ! i) = artifact valid_host (1 + j) (urls ! j)" by blast
    from inj[OF that(1) j(1,3)] j(2) that(2) show False by simp
  qed
  have bad: "\<forall>i<length urls. \<not> rendered goto pdf (urls ! i) \<longrightarrow>
              (\<forall>c. (artifact valid_host (1 + i) (urls ! i), c) \<in> set (dir st) \<longleftrightarrow>
                    (artifact valid_host (1 + i) (urls ! i), c) \<in> set dir0)"
  proof (intro allI impI)
    fix i c assume i: "i < length urls" "\<not> rendered goto pdf (urls ! i)"
    from nowrite[OF i]
    show "(artifact valid_host (1 + i) (urls ! i), c) \<in> set (dir st) \<longleftrightarrow>
          (artifact valid_host (1 + i) (urls ! i), c) \<in> set dir0"
      unfolding mem by blast
  qed
  have none: "\<forall>i<length urls. \<not> rendered goto pdf (urls ! i) \<longrightarrow>
              artifact valid_host (1 + i) (urls ! i) \<notin> fst ` set dir0 \<longrightarrow>
              artifact valid_host (1 + i) (urls ! i) \<notin> fst ` set (dir st)"
  proof (intro allI impI notI)
    fix i assume i: "i < length urls" "\<not> rendered goto pdf (urls ! i)"
      and n0: "artifact valid_host (1 + i) (urls ! i) \<notin> fst ` set dir0"
      and n1: "artifact valid_host (1 + i) (urls ! i) \<in> fst ` set (dir st)"
    from n1 obtain c where "(artifact valid_host (1 + i) (urls ! i), c) \<in> set (dir st)"
      by force
    with bad i have "(artifact valid_host (1 + i) (urls ! i), c) \<in> set dir0" by blast
    then have "artifact valid_host (1 + i) (urls ! i) \<in> fst ` set dir0" by force
    with n0 show False by simp
  qed
  have injall: "\<forall>i<length urls. \<forall>j<length urls.
              artifact valid_host (1 + i) (urls ! i) = artifact valid_host (1 + j) (urls ! j) \<longrightarrow>
              i = j"
    using inj by blast
  from c1 have d1: "closed st = 1" by simp
  from c2 have d2: "attempted st = urls" by simp
  from c3 have d3: "console st =
             map (\<lambda>(i, u). if rendered goto pdf u
                             then OK (path_join OUT_DIR (artifact valid_host i u)) else ERRO u)
               (zip [1 ..< 1 + length urls] urls)" by simp
  from c4 have d4: "fst ` set dir0 \<subseteq> fst ` set (dir st)" by simp
  show ?thesis
    by (rule exI[of _ st]) (intro conjI run d1 d2 d3 d4 c5 good bad none injall contents)
qed

theorem print_to_pdf_batch_witness:
  "print_to_pdf (\<lambda>h. True) True (\<lambda>u. u \<noteq> ''https://engsoftmoderna.info/cap2.html'')
      (\<lambda>u. Some (''pdf of '' @ u))
      [(''0001 - cap1.html.pdf'', ''stale''), (''notes.txt'', ''kept'')]
      [''https://engsoftmoderna.info/cap1.html'', ''https://engsoftmoderna.info/cap2.html'',
       ''https://engsoftmoderna.info/artigos/a.html''] =
     (Done,
      \<lparr>dir = [(''0001 - cap1.html.pdf'', ''pdf of https://engsoftmoderna.info/cap1.html''),
              (''notes.txt'', ''kept''),
              (''0003 - artigos - a.html.pdf'', ''pdf of https://engsoftmoderna.info/artigos/a.html'')],
       console = [OK ''esm_pdf_pages/0001 - cap1.html.pdf'',
                  ERRO ''https://engsoftmoderna.info/cap2.html'',
                  OK ''esm_pdf_pages/0003 - artigos - a.html.pdf''],
       attempted = [''https://engsoftmoderna.info/cap1.html'', ''https://engsoftmoderna.info/cap2.html'',
                    ''https://engsoftmoderna.info/artigos/a.html''],
       closed = 1\<rparr>)"
proof -
  let ?urls = "[''https://engsoftmoderna.info/cap1.html'', ''https://engsoftmoderna.info/cap2.html'',
       ''https://engsoftmoderna.info/artigos/a.html'']"
  let ?goto = "\<lambda>u. u \<noteq> ''https://engsoftmoderna.info/cap2.html''"
  let ?pdf = "\<lambda>u. Some (''pdf of '' @ u)"
  let ?dir0 = "[(''0001 - cap1.html.pdf'', ''stale''), (''notes.txt'', ''kept'')]"
  have h: "\<forall>u\<in>set ?urls. is_internal u" by code_simp
  from print_to_pdf_batch[OF TrueI h, of "\<lambda>h. True" ?goto ?pdf ?dir0]
  obtain st where st: "print_to_pdf (\<lambda>h. True) True ?goto ?pdf ?dir0 ?urls = (Done, st)"
    "closed st = 1" "attempted st = ?urls"
    by (elim exE conjE)
  have "print_to_pdf (\<lambda>h. True) True ?goto ?pdf ?dir0 ?urls =
     (Done,
      \<lparr>dir = [(''0001 - cap1.html.pdf'', ''pdf of https://engsoftmoderna.info/cap1.html''),
              (''notes.txt'', ''kept''),
              (''0003 - artigos - a.html.pdf'', ''pdf of https://engsoftmoderna.info/artigos/a.html'')],
       console = [OK ''esm_pdf_pages/0001 - cap1.html.pdf'',
                  ERRO ''https://engsoftmoderna.info/cap2.html'',
                  OK ''esm_pdf_pages/0003 - artigos - a.html.pdf''],
       attempted = attempted st,
       closed = closed st\<rparr>)"
    unfolding st(2,3) by code_simp
  then show ?thesis unfolding st(2,3) .
qed

subsection \<open>The pattern of internal URLs on code points: proofs\<close>

lemma of_char_less_256: "(of_char c :: nat) < 256"
proof -
  have "(of_char c :: nat) mod 256 = of_char c" by (rule of_char_mod_256)
  moreover have "(of_char c :: nat) mod 256 < 256" by simp
  ultimately show ?thesis by simp
qed

lemma of_char_lower_char:
  "(of_char (lower_char c) :: nat) =
     (if (65 \<le> (of_char c :: nat) \<and> (of_char c :: nat) \<le> 90) \<or>
         (192 \<le> (of_char c :: nat) \<and> (of_char c :: nat) \<le> 222 \<and> (of_char c :: nat) \<noteq> 215)
      then of_char c + 32 else of_char c)"
proof (cases "(65 \<le> (of_char c :: nat) \<and> (of_char c :: nat) \<le> 90) \<or>
         (192 \<le> (of_char c :: nat) \<and> (of_char c :: nat) \<le> 222 \<and> (of_char c :: nat) \<noteq> 215)")
  case False
  then have "lower_char c = c" unfolding lower_char_def Let_def by (rule if_not_P)
  with False show ?thesis by simp
next
  case True
  then have l: "lower_char c = char_of ((of_char c :: nat) + 32)"
    unfolding lower_char_def Let_def by (rule if_P)
  have "(of_char c :: nat) + 32 < 256" using True by auto
  then have "(of_char (char_of ((of_char c :: nat) + 32)) :: nat) = of_char c + 32"
    by (simp add: of_char_of)
  with True l show ?thesis by simp
qed

text \<open>
  On a character with a code point below 256 the regex's match of a lower-case ASCII letter
  or of a sign is the comparison after \<^verbatim>\<open>lower\<close>.
\<close>

lemma lower_code_arith:
  fixes m n :: nat
  assumes "m < 256" and "n < 65 \<or> (97 \<le> n \<and> n \<le> 122)"
  shows "((if (65 \<le> m \<and> m \<le> 90) \<or> (192 \<le> m \<and> m \<le> 222 \<and> m \<noteq> 215) then m + 32 else m) = n) =
         (m = n \<or> (97 \<le> n \<and> m + 32 = n))"
  using assms by (cases "(65 \<le> m \<and> m \<le> 90) \<or> (192 \<le> m \<and> m \<le> 222 \<and> m \<noteq> 215)") auto

lemma variants_below_256:
  fixes m :: nat
  assumes "m < 256"
    and "(of_char p :: nat) < 65 \<or> (97 \<le> (of_char p :: nat) \<and> (of_char p :: nat) \<le> 122)"
  shows "(m \<in> set (ignorecase_variants p)) =
         (m = of_char p \<or> (97 \<le> (of_char p :: nat) \<and> m + 32 = of_char p))"
proof (cases "(of_char p :: nat) < 65")
  case True
  then have "ignorecase_variants p = [of_char p]"
    by (simp add: ignorecase_variants_def Let_def)
  with True show ?thesis by simp
next
  case False
  with assms(2) have n: "97 \<le> (of_char p :: nat)" "(of_char p :: nat) \<le> 122" by simp_all
  then have "ignorecase_variants p = [of_char p, of_char p - 32] @
              (if (of_char p :: nat) = 105 then [0x130, 0x131] else if (of_char p :: nat) = 115 then [0x17F]
               else if (of_char p :: nat) = 107 then [0x212A] else [])"
    by (simp add: ignorecase_variants_def Let_def)
  then have "(m \<in> set (ignorecase_variants p)) =
     (m = of_char p \<or> m = of_char p - 32 \<or>
      m \<in> set (if (of_char p :: nat) = 105 then [0x130, 0x131] else if (of_char p :: nat) = 115 then [0x17F]
               else if (of_char p :: nat) = 107 then [0x212A] else []))"
    by simp
  moreover have "m \<notin> set (if (of_char p :: nat) = 105 then [0x130, 0x131] else if (of_char p :: nat) = 115 then [0x17F]
               else if (of_char p :: nat) = 107 then [0x212A::nat] else [])"
    using assms(1) by auto
  moreover have "(m = (of_char p :: nat) - 32) = (m + 32 = of_char p)"
    using n by auto
  ultimately show ?thesis using n by simp
qed

lemma ignorecase_variants_char:
  assumes "(of_char p :: nat) < 65 \<or> (97 \<le> (of_char p :: nat) \<and> (of_char p :: nat) \<le> 122)"
  shows "((of_char c :: nat) \<in> set (ignorecase_variants p)) = (lower_char c = p)"
proof -
  have "(lower_char c = p) = ((of_char (lower_char c) :: nat) = of_char p)"
    by (simp only: of_char_eq_iff)
  also have "\<dots> = ((of_char c :: nat) = of_char p \<or>
                     (97 \<le> (of_char p :: nat) \<and> (of_char c :: nat) + 32 = of_char p))"
    unfolding of_char_lower_char using of_char_less_256 assms by (rule lower_code_arith)
  also have "\<dots> = ((of_char c :: nat) \<in> set (ignorecase_variants p))"
    using of_char_less_256 assms by (rule variants_below_256[symmetric])
  finally show ?thesis by (rule sym)
qed

lemma origin_pattern_chars:
  "\<forall>p\<in>set ''https://engsoftmoderna.info''.
     (of_char p :: nat) < 65 \<or> (97 \<le> (of_char p :: nat) \<and> (of_char p :: nat) \<le> 122)"
  by simp

lemma of_char_eq_newline: "((of_char c :: nat) = 10) = (c = CHR 0x0A)"
proof -
  have "(of_char (CHR 0x0A) :: nat) = 10" by simp
  then have "((of_char c :: nat) = 10) = ((of_char c :: nat) = of_char (CHR 0x0A))" by simp
  then show ?thesis by (simp only: of_char_eq_iff)
qed

lemma of_char_eq_slash: "((of_char c :: nat) = 47) = (c = CHR ''/'')"
proof -
  have "(of_char (CHR ''/'') :: nat) = 47" by simp
  then have "((of_char c :: nat) = 47) = ((of_char c :: nat) = of_char (CHR ''/''))" by simp
  then show ?thesis by (simp only: of_char_eq_iff)
qed

lemma line_end_map: "line_end (map of_char r) = at_end r"
proof (cases r)
  case Nil
  then show ?thesis by (simp add: line_end_def at_end_def)
next
  case (Cons c cs)
  then show ?thesis by (cases cs) (simp_all add: line_end_def at_end_def of_char_eq_newline)
qed

lemma take1_map_slash: "(take 1 (map of_char r) = [47::nat]) = (take 1 r = ''/'')"
proof (cases r)
  case Nil
  then show ?thesis by simp
next
  case (Cons c cs)
  then show ?thesis by (simp add: of_char_eq_slash)
qed

lemma dropWhile_map_newline:
  "dropWhile (\<lambda>c. c \<noteq> (10::nat)) (map of_char r) = map of_char (dropWhile (\<lambda>c. c \<noteq> CHR 0x0A) r)"
  by (induction r) (simp_all add: of_char_eq_newline)

lemma origin_match_map:
  "list_all2 (\<lambda>p c. c \<in> set (ignorecase_variants p)) ''https://engsoftmoderna.info''
     (map of_char xs) =
   (str_lower xs = ''https://engsoftmoderna.info'')"
proof -
  let ?O = "''https://engsoftmoderna.info''"
  have "list_all2 (\<lambda>p c. c \<in> set (ignorecase_variants p)) ?O (map of_char xs) =
        list_all2 (\<lambda>p c. (of_char c :: nat) \<in> set (ignorecase_variants p)) ?O xs"
    by (rule list_all2_map2)
  also have "\<dots> = list_all2 (\<lambda>p c. p = lower_char c) ?O xs"
  proof (rule list.rel_cong[OF refl refl])
    fix p c assume "p \<in> set ?O"
    with origin_pattern_chars
    have "(of_char p :: nat) < 65 \<or> (97 \<le> (of_char p :: nat) \<and> (of_char p :: nat) \<le> 122)"
      by (rule bspec)
    from ignorecase_variants_char[OF this, of c]
    show "((of_char c :: nat) \<in> set (ignorecase_variants p)) = (p = lower_char c)" by auto
  qed
  also have "\<dots> = list_all2 (=) ?O (map lower_char xs)"
    by (rule list_all2_map2[symmetric])
  also have "\<dots> = (?O = map lower_char xs)"
    by (simp only: list.rel_eq)
  finally show ?thesis unfolding str_lower_def by (simp only: eq_commute[of ?O])
qed

text \<open>
  On a string of code points below 256, \<^verbatim>\<open>HTML_OK.match\<close> is the predicate \<open>is_internal\<close>.
\<close>

lemma is_internal_HTML_OK: "is_internal url = HTML_OK_match (map of_char url)"
proof -
  have t: "take 27 (map of_char url) = map of_char (take 27 url)" by (rule take_map)
  have d: "drop 27 (map of_char url) = map of_char (drop 27 url)" by (rule drop_map)
  have d': "drop 28 (map of_char url) = map of_char (drop 28 url)" by (rule drop_map)
  show ?thesis
    unfolding is_internal_def HTML_OK_match_def t d d' origin_match_map line_end_map
      take1_map_slash dropWhile_map_newline ..
qed

text \<open>
  C7. The claim that a URL of another origin is normalized to the empty string does not
  hold for the code. The dotless \<^verbatim>\<open>i\<close> (U+0131), the dotted capital \<^verbatim>\<open>I\<close> (U+0130) and the long
  \<^verbatim>\<open>s\<close> (U+017F) match the letters \<^verbatim>\<open>i\<close> and \<^verbatim>\<open>s\<close> of the pattern, so \<^verbatim>\<open>HTML_OK\<close> accepts a URL whose
  host has one of them in the place of that letter, a host that is not \<^verbatim>\<open>engsoftmoderna.info\<close>
  in either case of its letters; a host with another letter in that place is refused.
\<close>

theorem HTML_OK_accepts_foreign_hosts:
  "HTML_OK_match (map of_char ''https://engsoftmoderna.'' @ [0x131] @ map of_char ''nfo/x'') \<and>
   HTML_OK_match (map of_char ''https://engsoftmoderna.'' @ [0x130] @ map of_char ''nfo/x'') \<and>
   HTML_OK_match (map of_char ''https://eng'' @ [0x17F] @ map of_char ''oftmoderna.info/x'') \<and>
   \<not> HTML_OK_match (map of_char ''https://engsoftmoderna.'' @ [0x133] @ map of_char ''nfo/x'') \<and>
   [0x131 :: nat] \<noteq> map of_char ''i'' \<and> [0x131 :: nat] \<noteq> map of_char ''I'' \<and>
   [0x130 :: nat] \<noteq> map of_char ''i'' \<and> [0x130 :: nat] \<noteq> map of_char ''I'' \<and>
   [0x17F :: nat] \<noteq> map of_char ''s'' \<and> [0x17F :: nat] \<noteq> map of_char ''S''"
  by code_simp

end
